theory Spec2Isabelle
  imports
    Complex_Main
    "HOL-Library.Sublist"
    "HOL-Library.Char_ord"
    "HOL-Library.List_Lexorder"
begin

text \<open>
  A model of AutoUnpack (\<open>autounpack.py\<close>): the grouping of archive files into sets and
  the choice of each set's primary part, the extraction of a set with its history
  record, the loop that polls the torrent service, and the loading of the history file.
  Each function of the program is a function here; what the program changes is passed
  in and out as a state; the outside (the extraction tool, the operating system, the
  torrent service) is a parameter, so that the theorems hold however it behaves.
\<close>

section \<open>Strings and paths\<close>

text \<open>
  Python strings are modelled as \<^typ>\<open>string\<close>, a character being a code point below
  256, and are compared character by character in code order, as Python compares
  \<open>str\<close>. A \<open>pathlib.Path\<close> is an absolute path in POSIX form, the list of its
  components below the root; \<open>Path.__lt__\<close> compares the component sequences, which is
  the lexicographic order on lists of strings. \<open>suffix\<close> and \<open>stem\<close> are the ones of
  \<open>pathlib\<close> up to Python 3.13: the name is cut at its last dot unless that dot is
  its first or its last character.
\<close>

type_synonym path = "string list"

definition is_upper :: "char \<Rightarrow> bool" where
  "is_upper c = (CHR ''A'' \<le> c \<and> c \<le> CHR ''Z'')"

definition is_digit :: "char \<Rightarrow> bool" where
  "is_digit c = (CHR ''0'' \<le> c \<and> c \<le> CHR ''9'')"

definition lower_char :: "char \<Rightarrow> char" where
  "lower_char c = (if is_upper c then char_of (of_char c + (32::nat)) else c)"

text \<open>\<open>str.lower()\<close>, on the ASCII letters.\<close>

definition lower :: "string \<Rightarrow> string" where
  "lower s = map lower_char s"

text \<open>\<open>str.rfind(c)\<close>: the index of the last occurrence, \<open>None\<close> for Python's \<open>-1\<close>.\<close>

definition rfind :: "char \<Rightarrow> string \<Rightarrow> nat option" where
  "rfind c s =
     (if c \<in> set s then Some (length s - 1 - length (takeWhile (\<lambda>x. x \<noteq> c) (rev s)))
      else None)"

text \<open>\<open>Path.name\<close>, \<open>Path.parent\<close>, \<open>Path.suffix\<close>, \<open>Path.stem\<close>, \<open>Path / name\<close>
  and \<open>str(Path)\<close>.\<close>

definition path_name :: "path \<Rightarrow> string" where
  "path_name p = (if p = [] then [] else last p)"

definition path_parent :: "path \<Rightarrow> path" where
  "path_parent p = butlast p"

definition path_suffix :: "path \<Rightarrow> string" where
  "path_suffix p =
     (let nm = path_name p in
      case rfind CHR ''.'' nm of
        None \<Rightarrow> []
      | Some i \<Rightarrow> if 0 < i \<and> i < length nm - 1 then drop i nm else [])"

definition path_stem :: "path \<Rightarrow> string" where
  "path_stem p =
     (let nm = path_name p in
      case rfind CHR ''.'' nm of
        None \<Rightarrow> nm
      | Some i \<Rightarrow> if 0 < i \<and> i < length nm - 1 then take i nm else nm)"

definition path_join :: "path \<Rightarrow> string \<Rightarrow> path" where
  "path_join p s = (if s = [] then p else p @ [s])"

definition path_str :: "path \<Rightarrow> string" where
  "path_str p = (if p = [] then ''/'' else concat (map (\<lambda>c. CHR ''/'' # c) p))"

section \<open>Primary part of an archive set\<close>

text \<open>
  From \<open>Unpacker.unpack_archives\<close>:
  \<^verbatim>\<open>
  rar_files = [f for f in file_list if f.suffix.lower() == '.rar']
  if rar_files:
      primary_file = rar_files[0]
  else:
      primary_file = sorted(file_list)[0]
  \<close>
  \<open>sorted(file_list)[0]\<close> raises \<open>IndexError\<close> on an empty list; the model returns
  \<open>None\<close> there.
\<close>

definition is_rar :: "path \<Rightarrow> bool" where
  "is_rar f = (lower (path_suffix f) = ''.rar'')"

definition primary_file :: "path list \<Rightarrow> path option" where
  "primary_file file_list =
     (let rar_files = filter is_rar file_list in
      case rar_files of
        r # _ \<Rightarrow> Some r
      | [] \<Rightarrow> (case sort file_list of [] \<Rightarrow> None | f # _ \<Rightarrow> Some f))"

section \<open>Archive-set grouping\<close>


definition is_part_token :: "string \<Rightarrow> bool" where
  "is_part_token t =
     ((lower (take 4 t) = ''part'' \<and> 1 \<le> length (drop 4 t) \<and> length (drop 4 t) \<le> 3
         \<and> list_all is_digit (drop 4 t))
      \<or> (length t = 3 \<and> lower (take 1 t) \<in> {''r'', ''s''} \<and> list_all is_digit (drop 1 t))
      \<or> (length t = 3 \<and> lower (take 1 t) = ''z'' \<and> list_all is_digit (drop 1 t))
      \<or> (length t = 3 \<and> list_all is_digit t))"

text \<open>
  The token followed by \<open>$\<close>, which in Python matches at the end of the string and
  also just before a line feed that ends the string.
\<close>

definition token_at_end :: "string \<Rightarrow> bool" where
  "token_at_end cs =
     (is_part_token cs \<or> (cs \<noteq> [] \<and> last cs = CHR 0x0A \<and> is_part_token (butlast cs)))"

text \<open>
  \<open>PART_REGEX.match(s)\<close>, anchored at the start: the lazy group \<open>(.+?)\<close> takes the
  shortest non-empty prefix without a line feed after which a dot and the token end the
  string. The result is \<open>match.group(1)\<close>, \<open>None\<close> when there is no match.
\<close>

fun part_regex_scan :: "string \<Rightarrow> string \<Rightarrow> string option" where
  "part_regex_scan pre [] = None"
| "part_regex_scan pre (c # cs) =
     (if pre \<noteq> [] \<and> c = CHR ''.'' \<and> token_at_end cs then Some pre
      else if c = CHR 0x0A then None
      else part_regex_scan (pre @ [c]) cs)"

definition PART_REGEX_match :: "string \<Rightarrow> string option" where
  "PART_REGEX_match s = part_regex_scan [] s"


text \<open>
  The base name:
  \<^verbatim>\<open>
  name_to_check = archive.stem
  match = PART_REGEX.match(name_to_check)
  if not match and archive.suffix.lower() == '.rar':
      match = PART_REGEX.match(archive.name)
  base_name = match.group(1) if match else archive.stem
  \<close>
\<close>

definition base_name :: "path \<Rightarrow> string" where
  "base_name archive =
     (let name_to_check = path_stem archive;
          match1 = PART_REGEX_match name_to_check;
          match2 = (if match1 = None \<and> lower (path_suffix archive) = ''.rar''
                    then PART_REGEX_match (path_name archive) else match1)
      in case match2 of Some g \<Rightarrow> g | None \<Rightarrow> path_stem archive)"

text \<open>
  The derivation in the words of the specification, which asks for the extension to be
  exactly \<open>.rar\<close> before the pattern is tried on the full name.
\<close>

definition spec_base_name :: "path \<Rightarrow> string" where
  "spec_base_name archive =
     (case PART_REGEX_match (path_stem archive) of
        Some g \<Rightarrow> g
      | None \<Rightarrow>
          (if path_suffix archive = ''.rar''
           then (case PART_REGEX_match (path_name archive) of
                   Some g \<Rightarrow> g
                 | None \<Rightarrow> path_stem archive)
           else path_stem archive))"

text \<open>
  \<open>archive_sets = defaultdict(list)\<close> filled by \<open>archive_sets[base_name].append(archive)\<close>:
  a dictionary keeps its keys in the order of their first insertion, so it is an
  association list; a new key goes to the end, a known key has the archive appended to
  its list.
\<close>

fun sets_append :: "(string \<times> path list) list \<Rightarrow> string \<Rightarrow> path \<Rightarrow> (string \<times> path list) list" where
  "sets_append [] b a = [(b, [a])]"
| "sets_append ((k, v) # rest) b a =
     (if k = b then (k, v @ [a]) # rest else (k, v) # sets_append rest b a)"

definition archive_sets :: "path list \<Rightarrow> (string \<times> path list) list" where
  "archive_sets all_archives =
     foldl (\<lambda>sets archive. sets_append sets (base_name archive) archive) [] all_archives"

text \<open>
  The invariant of the grouping loop: after the archives \<open>xs\<close> have been inserted, the
  keys are the base names seen, each once, and each key holds the archives of that base
  name in the order of \<open>xs\<close>.
\<close>

definition groups_of :: "(path \<Rightarrow> string) \<Rightarrow> path list \<Rightarrow> (string \<times> path list) list \<Rightarrow> bool" where
  "groups_of key xs sets =
     (distinct (map fst sets) \<and> set (map fst sets) = key ` set xs
      \<and> (\<forall>b \<in> key ` set xs. map_of sets b = Some (filter (\<lambda>a. key a = b) xs)))"

section \<open>Extraction\<close>

text \<open>
  The state the unpacker works on: the entries that exist on disk, the history file
  \<open>extractions.log\<close> (\<open>None\<close> while the file does not exist, its text otherwise), the
  queue read by the presentation layer, and the calls made to the outside so far, in
  order. Lines sent to the logger are left out of the queue; every other \<open>put\<close> is there.
\<close>

datatype gui_msg =
    Status string
  | ProgressStart
  | ProgressStop
  | ExtractionSuccess string string
  | ExtractionFailure string string

datatype call =
    Mkdir path
  | RunTool "string list"
  | AppendHistory string string string
  | RemoveFile path
  | RemoveFailed path

record world =
  disk :: "path list"
  history :: "string option"
  gui_queue :: "gui_msg list"
  calls :: "call list"

text \<open>
  \<open>subprocess.run(command, check=True, ...)\<close> returns with an exit status, and
  \<open>check=True\<close> turns a status other than 0 into \<open>CalledProcessError\<close>; any other
  exception (the executable is missing, for one) is \<open>LaunchFailed\<close>.
\<close>

datatype tool_result = Exit int | LaunchFailed

datatype error = MkdirError path | IndexError | PollError | ConnectError

text \<open>
  What the program cannot decide by itself: the extraction tool, which maps the command
  line and the disk to a result and the disk it leaves; whether \<open>mkdir\<close> and
  \<open>os.remove\<close> are let through by the operating system; and the files \<open>os.walk\<close>
  lists under a path (the path itself when it is a file), in the order of the walk.
\<close>

record env =
  tool :: "string list \<Rightarrow> path list \<Rightarrow> tool_result \<times> path list"
  mkdir_allowed :: "path \<Rightarrow> bool"
  remove_allowed :: "path \<Rightarrow> bool"
  list_files :: "path list \<Rightarrow> path \<Rightarrow> path list"

record unpacker =
  seven_zip_path :: string
  delete_on_success :: bool
  create_subfolder :: bool

definition gui_put :: "gui_msg \<Rightarrow> world \<Rightarrow> world" where
  "gui_put m w = w\<lparr>gui_queue := gui_queue w @ [m]\<rparr>"

text \<open>\<open>str(n)\<close> for a counter.\<close>

definition digit_char :: "nat \<Rightarrow> char" where
  "digit_char d = char_of (48 + d)"

fun str_nat :: "nat \<Rightarrow> string" where
  "str_nat n = (if n < 10 then [digit_char n] else str_nat (n div 10) @ [digit_char (n mod 10)])"

declare str_nat.simps [simp del]

text \<open>
  \<^verbatim>\<open>
  def _log_extraction_event(self, status, name, path):
      with open(EXTRACTION_LOG_FILE, 'a') as f:
          f.write(f"{status}:{name}:{path}\n")
      if status == 'SUCCESS':
          self.gui_queue.put(('extraction_success', (name, path)))
      elif status == 'FAILURE':
          self.gui_queue.put(('extraction_failure', (name, path)))
  \<close>
  Opening for append creates the file when it is missing. The write is taken to succeed.
\<close>

definition record_line :: "string \<Rightarrow> string \<Rightarrow> string \<Rightarrow> string" where
  "record_line status name path = status @ '':'' @ name @ '':'' @ path @ [CHR 0x0A]"

definition file_text :: "string option \<Rightarrow> string" where
  "file_text h = (case h of None \<Rightarrow> [] | Some t \<Rightarrow> t)"

definition log_extraction_event :: "string \<Rightarrow> string \<Rightarrow> string \<Rightarrow> world \<Rightarrow> world" where
  "log_extraction_event status name path w =
     (let w1 = w\<lparr>history := Some (file_text (history w) @ record_line status name path),
                  calls := calls w @ [AppendHistory status name path]\<rparr>
      in if status = ''SUCCESS'' then gui_put (ExtractionSuccess name path) w1
         else if status = ''FAILURE'' then gui_put (ExtractionFailure name path) w1
         else w1)"

text \<open>
  The directory of an extraction in subfolder mode:
  \<^verbatim>\<open>
  output_dir = archive_path.parent / base_name
  counter = 1
  while output_dir.exists():
      output_dir = archive_path.parent / f"{base_name} ({counter})"
      counter += 1
  \<close>
  \<open>candidate_name\<close> is the f-string, \<open>unique_dir\<close> the loop on \<open>output_dir\<close> and
  \<open>counter\<close>.
\<close>

definition candidate_name :: "string \<Rightarrow> nat \<Rightarrow> string" where
  "candidate_name base counter = base @ '' ('' @ str_nat counter @ '')''"

text \<open>
  The counters from \<open>counter\<close> on whose candidate exists; there are finitely many, and
  the loop leaves one of them behind at each turn but the last.
\<close>

definition taken_from :: "path list \<Rightarrow> path \<Rightarrow> string \<Rightarrow> nat \<Rightarrow> nat set" where
  "taken_from dsk parent base counter =
     {k. counter \<le> k \<and> path_join parent (candidate_name base k) \<in> set dsk}"

function unique_dir :: "path list \<Rightarrow> path \<Rightarrow> string \<Rightarrow> path \<Rightarrow> nat \<Rightarrow> path" where
  "unique_dir dsk parent base output_dir counter =
     (if output_dir \<in> set dsk
      then unique_dir dsk parent base (path_join parent (candidate_name base counter)) (Suc counter)
      else output_dir)"
  by pat_completeness auto

text \<open>
  Reading a counter back from its digits, used to tell the candidate names apart.
\<close>

definition digit_val :: "char \<Rightarrow> nat" where
  "digit_val c = of_char c - 48"

definition nat_of_str :: "string \<Rightarrow> nat" where
  "nat_of_str s = foldl (\<lambda>acc c. 10 * acc + digit_val c) 0 s"

text \<open>
  Deleting the parts after a success:
  \<^verbatim>\<open>
  for part in all_parts:
      try:
          os.remove(part)
      except OSError as e:
          self.logger.error(...)
  \<close>
\<close>

fun remove_parts :: "env \<Rightarrow> path list \<Rightarrow> world \<Rightarrow> world" where
  "remove_parts E [] w = w"
| "remove_parts E (part # rest) w =
     remove_parts E rest
       (if part \<in> set (disk w) \<and> remove_allowed E part
        then w\<lparr>disk := removeAll part (disk w), calls := calls w @ [RemoveFile part]\<rparr>
        else w\<lparr>calls := calls w @ [RemoveFailed part]\<rparr>)"

definition choose_output_dir :: "path list \<Rightarrow> path \<Rightarrow> string \<Rightarrow> path" where
  "choose_output_dir dsk archive_path base =
     unique_dir dsk (path_parent archive_path) base
       (path_join (path_parent archive_path) base) 1"

definition tool_command :: "unpacker \<Rightarrow> path \<Rightarrow> path \<Rightarrow> string list" where
  "tool_command U archive_path output_dir =
     [seven_zip_path U, ''x'', path_str archive_path, ''-o'' @ path_str output_dir, ''-y'']"

text \<open>
  The \<open>try\<close> block of \<open>Unpacker.extract_archive\<close> with its handlers and its
  \<open>finally\<close>. Both handlers, for \<open>CalledProcessError\<close> and for any other exception,
  record a failure in the same way and differ only in what they send to the logger.
\<close>

definition run_extraction ::
  "env \<Rightarrow> unpacker \<Rightarrow> path \<Rightarrow> path list \<Rightarrow> path \<Rightarrow> string \<Rightarrow> world \<Rightarrow> world" where
  "run_extraction E U archive_path all_parts output_dir extraction_name w =
     (let command = tool_command U archive_path output_dir;
          w1 = gui_put ProgressStart
                 (gui_put (Status (''Extracting: '' @ path_name archive_path)) w);
          (res, dsk) = tool E command (disk w1);
          w2 = w1\<lparr>disk := dsk, calls := calls w1 @ [RunTool command]\<rparr>;
          w3 = (if res = Exit 0
                then (let w4 = log_extraction_event ''SUCCESS'' extraction_name
                                 (path_str output_dir) w2
                      in if delete_on_success U then remove_parts E all_parts w4 else w4)
                else log_extraction_event ''FAILURE'' extraction_name (path_str output_dir) w2)
      in gui_put (Status ''Monitoring...'') (gui_put ProgressStop w3))"

text \<open>
  \<open>Unpacker.extract_archive(archive_path, all_parts, torrent_name)\<close>. The result is the
  exception that leaves the method, if any, and the state it leaves behind.
  \<^verbatim>\<open>
  base_name = torrent_name
  if self.create_subfolder:
      output_dir = ...                       # the loop above
      extraction_name = output_dir.name
      output_dir.mkdir()
  else:
      output_dir = archive_path.parent
      extraction_name = base_name
  command = [self.seven_zip_path, "x", str(archive_path), f"-o{output_dir}", "-y"]
  try: ...
  \<close>
\<close>

definition extract_archive ::
  "env \<Rightarrow> unpacker \<Rightarrow> path \<Rightarrow> path list \<Rightarrow> string \<Rightarrow> world \<Rightarrow> error option \<times> world" where
  "extract_archive E U archive_path all_parts torrent_name w =
     (let base = torrent_name in
      if create_subfolder U
      then (let output_dir = choose_output_dir (disk w) archive_path base;
                extraction_name = path_name output_dir
            in if mkdir_allowed E output_dir
               then (None, run_extraction E U archive_path all_parts output_dir extraction_name
                             (w\<lparr>disk := disk w @ [output_dir],
                                calls := calls w @ [Mkdir output_dir]\<rparr>))
               else (Some (MkdirError output_dir), w))
      else (let output_dir = path_parent archive_path;
                extraction_name = base
            in (None, run_extraction E U archive_path all_parts output_dir extraction_name w)))"



section \<open>The completion poller\<close>

text \<open>
  A torrent as the service reports it, with the keys the poller reads. The content path
  is kept as the \<open>Path\<close> the poller builds from it.
\<close>

record torrent =
  hash :: string
  name :: string
  content_path :: path
  progress :: rat

datatype monitor_event =
    Polled
  | MarkedProcessed string
  | PauseRequested string
  | PauseFailed string
  | UnpackCalled string path
  | Waited nat
  | Stopped

text \<open>
  The state of \<open>UnpackMonitorThread\<close>: the shared set \<open>processed_torrents\<close>, the state
  of the unpacker, and what the thread has done so far, in order.
\<close>

record monitor_state =
  processed_torrents :: "string set"
  the_world :: world
  trace :: "monitor_event list"

text \<open>
  What the thread calls: \<open>Path.resolve\<close>, the pause request of the service (which may
  raise, and is caught), and \<open>unpacker.unpack_archives\<close>.
\<close>

record monitor_env =
  resolve :: "path \<Rightarrow> path"
  pause_ok :: "string \<Rightarrow> bool"
  unpack :: "path \<Rightarrow> world \<Rightarrow> error option \<times> world"

text \<open>
  The filter of a poll tick:
  \<^verbatim>\<open>
  if torrent["progress"] == 1 and torrent['hash'] not in self.processed_torrents:
      content_path = Path(torrent["content_path"])
      # Ensure we only process torrents inside the monitored path
      if str(content_path.resolve()).startswith(str(monitor_path.resolve())):
          torrents_to_process.append(torrent)
  \<close>
\<close>

definition selected :: "monitor_env \<Rightarrow> path \<Rightarrow> string set \<Rightarrow> torrent \<Rightarrow> bool" where
  "selected M monitor_path processed t =
     (progress t = 1 \<and> hash t \<notin> processed
      \<and> prefix (path_str (resolve M monitor_path)) (path_str (resolve M (content_path t))))"

definition torrents_to_process ::
  "monitor_env \<Rightarrow> path \<Rightarrow> string set \<Rightarrow> torrent list \<Rightarrow> torrent list" where
  "torrents_to_process M monitor_path processed torrents =
     filter (selected M monitor_path processed) torrents"

text \<open>
  Path containment, as the specification asks for it: the resolved content path is the
  resolved root or lies below it.
\<close>

definition within_root :: "monitor_env \<Rightarrow> path \<Rightarrow> path \<Rightarrow> bool" where
  "within_root M monitor_path p = prefix (resolve M monitor_path) (resolve M p)"

definition spec_selected :: "monitor_env \<Rightarrow> path \<Rightarrow> string set \<Rightarrow> torrent \<Rightarrow> bool" where
  "spec_selected M monitor_path processed t =
     (progress t = 1 \<and> hash t \<notin> processed \<and> within_root M monitor_path (content_path t))"

text \<open>
  The loop over the selected torrents, \<open>i\<close> counting from 1 for the status text:
  \<^verbatim>\<open>
  for i, torrent in enumerate(torrents_to_process):
      content_path = Path(torrent["content_path"])
      self.gui_queue.put(('status', f"Processing ({i+1}/{len(torrents_to_process)}): ..."))
      self.processed_torrents.add(torrent['hash'])
      try:
          qbt_client.torrents_pause(torrent_hashes=[torrent['hash']])
      except Exception as e:
          ...
      unpacker.unpack_archives(content_path)
  \<close>
  \<open>process_one\<close> is the body of the loop, \<open>process_torrents\<close> the loop. A pause
  that fails is logged, which the trace shows as \<open>PauseFailed\<close>, and nothing else. An exception of \<open>unpack_archives\<close> leaves the loop with
  the state reached so far.
\<close>

definition process_one ::
  "monitor_env \<Rightarrow> nat \<Rightarrow> nat \<Rightarrow> torrent \<Rightarrow> monitor_state \<Rightarrow> error option \<times> monitor_state" where
  "process_one M len i t s =
     (let w1 = gui_put (Status (''Processing ('' @ str_nat i @ ''/'' @ str_nat len @ ''): ''
                                 @ name t)) (the_world s);
          (r, w2) = unpack M (content_path t) w1
      in (r, s\<lparr>processed_torrents := insert (hash t) (processed_torrents s),
                the_world := w2,
                trace := trace s @ [MarkedProcessed (hash t), PauseRequested (hash t)]
                           @ (if pause_ok M (hash t) then [] else [PauseFailed (hash t)])
                           @ [UnpackCalled (hash t) (content_path t)]\<rparr>))"

fun process_torrents ::
  "monitor_env \<Rightarrow> nat \<Rightarrow> nat \<Rightarrow> torrent list \<Rightarrow> monitor_state \<Rightarrow> error option \<times> monitor_state" where
  "process_torrents M len i [] s = (None, s)"
| "process_torrents M len i (t # ts) s =
     (case process_one M len i t s of
        (Some e, s') \<Rightarrow> (Some e, s')
      | (None, s') \<Rightarrow> process_torrents M len (Suc i) ts s')"

text \<open>
  The body of the \<open>try\<close> of one tick. \<open>reply\<close> is what \<open>qbt_client.torrents()\<close>
  returns, \<open>None\<close> when it raises.
\<close>

definition poll_tick ::
  "monitor_env \<Rightarrow> path \<Rightarrow> torrent list option \<Rightarrow> monitor_state \<Rightarrow> error option \<times> monitor_state" where
  "poll_tick M monitor_path reply s =
     (case reply of
        None \<Rightarrow> (Some PollError, s)
      | Some torrents \<Rightarrow>
          (let todo = torrents_to_process M monitor_path (processed_torrents s) torrents in
           if todo = [] then (None, s)
           else (case process_torrents M (length todo) 1 todo s of
                   (Some e, s') \<Rightarrow> (Some e, s')
                 | (None, s') \<Rightarrow>
                     (None, s'\<lparr>the_world := gui_put (Status ''Monitoring...'') (the_world s')\<rparr>))))"

text \<open>
  The loop of \<open>run\<close>. Each element of the list is what one turn of the loop meets:
  whether \<open>_stop_event\<close> is set at the head of the loop, and the reply of the service.
  \<^verbatim>\<open>
  while not self._stop_event.is_set():
      try:
          ...
      except Exception as e:
          ...
          self._stop_event.wait(60)
          continue
      self._stop_event.wait(15)
  \<close>
  When the list is used up the thread is still running.
\<close>

record tick_input =
  stop_set :: bool
  reply :: "torrent list option"

fun monitor_loop ::
  "monitor_env \<Rightarrow> path \<Rightarrow> tick_input list \<Rightarrow> monitor_state \<Rightarrow> monitor_state" where
  "monitor_loop M monitor_path [] s = s"
| "monitor_loop M monitor_path (i # rest) s =
     (if stop_set i then s\<lparr>trace := trace s @ [Stopped]\<rparr>
      else (case poll_tick M monitor_path (reply i) (s\<lparr>trace := trace s @ [Polled]\<rparr>) of
              (Some e, s') \<Rightarrow>
                monitor_loop M monitor_path rest
                  (s'\<lparr>the_world := gui_put (Status ''Error during polling. Retrying...'')
                                      (the_world s'),
                      trace := trace s' @ [Waited 60]\<rparr>)
            | (None, s') \<Rightarrow>
                monitor_loop M monitor_path rest (s'\<lparr>trace := trace s' @ [Waited 15]\<rparr>)))"

text \<open>
  \<open>run\<close> up to the loop:
  \<^verbatim>\<open>
  qbt_client = Client(qbt_url)
  try:
      qbt_client.login(...)
      self.gui_queue.put(('status', "Monitoring..."))
  except Exception as e:
      self.gui_queue.put(('status', "Error: Connection Failed"))
      return
  \<close>
  Building the client already talks to the service and stands before the \<open>try\<close>: when
  it raises, the exception leaves \<open>run\<close> and nothing is put on the queue. A login that
  fails ends the thread with a status. Otherwise the loop runs.
\<close>

datatype connection = ClientFailed | LoginFailed | Connected

definition run ::
  "monitor_env \<Rightarrow> connection \<Rightarrow> path \<Rightarrow> tick_input list \<Rightarrow> monitor_state
     \<Rightarrow> error option \<times> monitor_state" where
  "run M conn monitor_path inputs s =
     (case conn of
        ClientFailed \<Rightarrow> (Some ConnectError, s)
      | LoginFailed \<Rightarrow>
          (None, s\<lparr>the_world := gui_put (Status ''Error: Connection Failed'') (the_world s)\<rparr>)
      | Connected \<Rightarrow>
          (None, monitor_loop M monitor_path inputs
                   (s\<lparr>the_world := gui_put (Status ''Monitoring...'') (the_world s)\<rparr>)))"

text \<open>
  A hash is reached on a tick when the thread was not stopped before, the torrent with
  that hash is among those the tick selects, and the loop over the selected torrents
  gets past all that stand before it, none of their extractions raising.
\<close>

definition reached :: "monitor_env \<Rightarrow> path \<Rightarrow> tick_input list \<Rightarrow> monitor_state \<Rightarrow> string \<Rightarrow> bool" where
  "reached M monitor_path inputs s h =
     (\<exists>pre i rest ts before t after.
        inputs = pre @ i # rest \<and> (\<forall>j\<in>set pre. \<not> stop_set j) \<and> \<not> stop_set i
        \<and> reply i = Some ts
        \<and> torrents_to_process M monitor_path
             (processed_torrents (monitor_loop M monitor_path pre s)) ts = before @ t # after
        \<and> hash t = h
        \<and> fst (process_torrents M (length (before @ t # after)) 1 before
                 ((monitor_loop M monitor_path pre s)
                    \<lparr>trace := trace (monitor_loop M monitor_path pre s) @ [Polled]\<rparr>)) = None)"

text \<open>How often \<open>unpack_archives\<close> was called for the torrent with hash \<open>h\<close>.\<close>

definition unpack_count :: "string \<Rightarrow> monitor_event list \<Rightarrow> nat" where
  "unpack_count h evs = length (filter (\<lambda>e. case e of UnpackCalled h' p \<Rightarrow> h' = h | _ \<Rightarrow> False) evs)"

text \<open>
  Reading a trace from the left with the set of hashes marked so far: every call of
  \<open>unpack_archives\<close> is for a hash that was put into \<open>processed_torrents\<close> earlier
  in the trace.
\<close>

fun marks_ok :: "string set \<Rightarrow> monitor_event list \<Rightarrow> bool" where
  "marks_ok S [] = True"
| "marks_ok S (MarkedProcessed h # evs) = marks_ok (insert h S) evs"
| "marks_ok S (UnpackCalled h p # evs) = (h \<in> S \<and> marks_ok S evs)"
| "marks_ok S (e # evs) = marks_ok S evs"

text \<open>What one turn of the loop over the selected torrents adds to the trace.\<close>

definition dispatch_events :: "monitor_env \<Rightarrow> torrent \<Rightarrow> monitor_event list" where
  "dispatch_events M t =
     [MarkedProcessed (hash t), PauseRequested (hash t)]
     @ (if pause_ok M (hash t) then [] else [PauseFailed (hash t)])
     @ [UnpackCalled (hash t) (content_path t)]"

text \<open>
  Concrete runs: a file system without links, where \<open>resolve\<close> changes nothing, a
  service that pauses on request, and an unpacker that raises for the content paths in
  \<open>failing\<close> and returns for the others; a completed torrent; a fresh thread.
\<close>

definition example_monitor :: "path list \<Rightarrow> monitor_env" where
  "example_monitor failing =
     \<lparr>resolve = (\<lambda>p. p),
      pause_ok = (\<lambda>h. True),
      unpack = (\<lambda>p w. if p \<in> set failing then (Some (MkdirError p), w) else (None, w))\<rparr>"

definition example_torrent :: "string \<Rightarrow> path \<Rightarrow> torrent" where
  "example_torrent h p = \<lparr>hash = h, name = h, content_path = p, progress = 1\<rparr>"

definition fresh_state :: monitor_state where
  "fresh_state =
     \<lparr>processed_torrents = {},
      the_world = \<lparr>disk = [], history = None, gui_queue = [], calls = []\<rparr>,
      trace = []\<rparr>"

section \<open>The extraction history\<close>

text \<open>
  \<open>str.isspace\<close> on the characters below 256, \<open>str.strip()\<close>, and
  \<open>str.split(sep, maxsplit)\<close>.
\<close>

definition is_space :: "char \<Rightarrow> bool" where
  "is_space c = (of_char c \<in> {9::nat, 10, 11, 12, 13, 28, 29, 30, 31, 32, 133, 160})"

definition strip :: "string \<Rightarrow> string" where
  "strip s = rev (dropWhile is_space (rev (dropWhile is_space s)))"

fun split_max :: "char \<Rightarrow> nat \<Rightarrow> string \<Rightarrow> string list" where
  "split_max sep 0 s = [s]"
| "split_max sep (Suc n) s =
     (if sep \<in> set s
      then takeWhile (\<lambda>c. c \<noteq> sep) s # split_max sep n (tl (dropWhile (\<lambda>c. c \<noteq> sep) s))
      else [s])"

text \<open>
  Reading the file in text mode: \<open>\r\n\<close> and a lone \<open>\r\<close> arrive as \<open>\n\<close>, and the
  iteration yields the text between line feeds. The line feed itself is dropped here,
  since the loop strips every line before it looks at it; the empty text after the last
  line feed counts as one more (blank) line, which the loop skips.
\<close>

fun universal_newlines :: "string \<Rightarrow> string" where
  "universal_newlines [] = []"
| "universal_newlines (c # cs) =
     (if c = CHR 0x0D
      then (case cs of
              d # ds \<Rightarrow> if d = CHR 0x0A then CHR 0x0A # universal_newlines ds
                        else CHR 0x0A # universal_newlines cs
            | [] \<Rightarrow> [CHR 0x0A])
      else c # universal_newlines cs)"

fun split_on :: "char \<Rightarrow> string \<Rightarrow> string list" where
  "split_on sep [] = [[]]"
| "split_on sep (c # cs) =
     (if c = sep then [] # split_on sep cs
      else (case split_on sep cs of
              l # ls \<Rightarrow> (c # l) # ls
            | [] \<Rightarrow> [[c]]))"

definition file_lines :: "string \<Rightarrow> string list" where
  "file_lines text = split_on (CHR 0x0A) (universal_newlines text)"

text \<open>
  \<open>MainApp._load_extraction_history\<close>, the part that fills \<open>extraction_history\<close>:
  \<^verbatim>\<open>
  for line in f:
      line = line.strip()
      if not line:
          continue
      parts = line.split(':', 2)
      if len(parts) < 3: continue
      status, name, path = parts
      self.extraction_history.append((status, name, path))
  \<close>
\<close>

definition parse_line :: "string \<Rightarrow> (string \<times> string \<times> string) option" where
  "parse_line line0 =
     (let line = strip line0 in
      if line = [] then None
      else (case split_max (CHR '':'') 2 line of
              [status, nm, pth] \<Rightarrow> Some (status, nm, pth)
            | _ \<Rightarrow> None))"

definition load_lines :: "string list \<Rightarrow> (string \<times> string \<times> string) list" where
  "load_lines ls = List.map_filter parse_line ls"

definition load_extraction_history :: "string option \<Rightarrow> (string \<times> string \<times> string) list" where
  "load_extraction_history h =
     (case h of None \<Rightarrow> [] | Some text \<Rightarrow> load_lines (file_lines text))"

text \<open>Writing a sequence of records, one call of \<open>_log_extraction_event\<close> each.\<close>

definition append_records :: "(string \<times> string \<times> string) list \<Rightarrow> world \<Rightarrow> world" where
  "append_records rs w = foldl (\<lambda>w (status, nm, pth). log_extraction_event status nm pth w) w rs"

text \<open>
  A record that survives the file: the status is one of the two the program writes, the
  name has no colon, no field has a line break, and the path does not end in white
  space.
\<close>

definition plain_field :: "string \<Rightarrow> bool" where
  "plain_field s = (CHR 0x0A \<notin> set s \<and> CHR 0x0D \<notin> set s)"

definition storable :: "string \<times> string \<times> string \<Rightarrow> bool" where
  "storable r =
     (case r of (status, nm, pth) \<Rightarrow>
        status \<in> {''SUCCESS'', ''FAILURE''} \<and> CHR '':'' \<notin> set nm
        \<and> plain_field nm \<and> plain_field pth \<and> (pth = [] \<or> \<not> is_space (last pth)))"

text \<open>
  The values of the locals of \<open>extract_archive\<close> in a given state: \<open>output_dir\<close>,
  \<open>extraction_name\<close>, the disk as the tool finds it, and what the tool answers.
\<close>

definition output_dir_of :: "unpacker \<Rightarrow> world \<Rightarrow> path \<Rightarrow> string \<Rightarrow> path" where
  "output_dir_of U w archive_path torrent_name =
     (if create_subfolder U then choose_output_dir (disk w) archive_path torrent_name
      else path_parent archive_path)"

definition extraction_name_of :: "unpacker \<Rightarrow> world \<Rightarrow> path \<Rightarrow> string \<Rightarrow> string" where
  "extraction_name_of U w archive_path torrent_name =
     (if create_subfolder U then path_name (output_dir_of U w archive_path torrent_name)
      else torrent_name)"

definition disk_before_tool :: "unpacker \<Rightarrow> world \<Rightarrow> path \<Rightarrow> string \<Rightarrow> path list" where
  "disk_before_tool U w archive_path torrent_name =
     (if create_subfolder U then disk w @ [output_dir_of U w archive_path torrent_name]
      else disk w)"

definition tool_outcome :: "env \<Rightarrow> unpacker \<Rightarrow> world \<Rightarrow> path \<Rightarrow> string \<Rightarrow> tool_result \<times> path list" where
  "tool_outcome E U w archive_path torrent_name =
     tool E (tool_command U archive_path (output_dir_of U w archive_path torrent_name))
       (disk_before_tool U w archive_path torrent_name)"

text \<open>
  A small environment for concrete runs: a tool that answers \<open>res\<close> and adds the entries
  \<open>written\<close>, an operating system that lets every \<open>mkdir\<close> and \<open>remove\<close> through, and
  a walk that lists those of \<open>files\<close> that exist under the path.
\<close>

definition example_env :: "tool_result \<Rightarrow> path list \<Rightarrow> path list \<Rightarrow> env" where
  "example_env res written files =
     \<lparr>tool = (\<lambda>command dsk. (res, dsk @ written)),
      mkdir_allowed = (\<lambda>p. True),
      remove_allowed = (\<lambda>p. True),
      list_files = (\<lambda>dsk p. filter (\<lambda>f. prefix p f \<and> f \<in> set dsk) files)\<rparr>"

definition example_unpacker :: "bool \<Rightarrow> bool \<Rightarrow> unpacker" where
  "example_unpacker del sub =
     \<lparr>seven_zip_path = ''7z'', delete_on_success = del, create_subfolder = sub\<rparr>"

definition example_world :: "path list \<Rightarrow> world" where
  "example_world dsk = \<lparr>disk = dsk, history = None, gui_queue = [], calls = []\<rparr>"

text \<open>
  The torrents a tick selects, and the invariant of the thread: calls of
  \<open>unpack_archives\<close> come after the mark, no hash is unpacked twice, and a hash that
  was unpacked is in \<open>processed_torrents\<close>.
\<close>

definition selection :: "monitor_env \<Rightarrow> path \<Rightarrow> torrent list option \<Rightarrow> monitor_state \<Rightarrow> torrent list" where
  "selection M monitor_path rep s =
     (case rep of
        None \<Rightarrow> []
      | Some torrents \<Rightarrow> torrents_to_process M monitor_path (processed_torrents s) torrents)"

definition dispatch_inv :: "monitor_state \<Rightarrow> bool" where
  "dispatch_inv s =
     (marks_ok {} (trace s)
      \<and> (\<forall>h. unpack_count h (trace s) \<le> 1
             \<and> (0 < unpack_count h (trace s) \<longrightarrow> h \<in> processed_torrents s)))"

text \<open>
  A turn of the loop that finds the thread running and gets a reply, and the turn that
  finds the stop event set.
\<close>

definition example_tick :: "torrent list \<Rightarrow> tick_input" where
  "example_tick ts = \<lparr>stop_set = False, reply = Some ts\<rparr>"

definition stop_tick :: tick_input where
  "stop_tick = \<lparr>stop_set = True, reply = None\<rparr>"

section \<open>Termination of the directory search\<close>

lemma of_char_digit: "d < 10 \<Longrightarrow> of_char (digit_char d) = 48 + d"
  by (simp add: digit_char_def)

lemma nat_of_str_nat: "nat_of_str (str_nat n) = n"
proof (induction n rule: str_nat.induct)
  case (1 n)
  show ?case
  proof (cases "n < 10")
    case True
    then show ?thesis
      by (simp add: str_nat.simps[of n] nat_of_str_def digit_val_def of_char_digit)
  next
    case False
    then have "str_nat n = str_nat (n div 10) @ [digit_char (n mod 10)]"
      by (simp add: str_nat.simps[of n])
    moreover have "nat_of_str (str_nat (n div 10)) = n div 10"
      using 1 False by simp
    ultimately show ?thesis
      by (simp add: nat_of_str_def digit_val_def of_char_digit)
  qed
qed

lemma str_nat_inj: "str_nat m = str_nat n \<Longrightarrow> m = n"
  by (metis nat_of_str_nat)

lemma candidate_inj:
  "path_join parent (candidate_name base m) = path_join parent (candidate_name base n) \<Longrightarrow> m = n"
  by (auto simp: path_join_def candidate_name_def dest: str_nat_inj)

lemma finite_taken: "finite (taken_from dsk parent base counter)"
proof -
  have "inj (\<lambda>k. path_join parent (candidate_name base k))"
    by (rule injI) (erule candidate_inj)
  then have "finite ((\<lambda>k. path_join parent (candidate_name base k)) -` set dsk)"
    by (simp add: finite_vimageI)
  moreover have "taken_from dsk parent base counter
                   \<subseteq> (\<lambda>k. path_join parent (candidate_name base k)) -` set dsk"
    by (auto simp: taken_from_def)
  ultimately show ?thesis by (rule rev_finite_subset)
qed

lemma taken_step:
  assumes "path_join parent (candidate_name base counter) \<in> set dsk"
  shows "card (taken_from dsk parent base (Suc counter)) < card (taken_from dsk parent base counter)"
proof -
  have "counter \<in> taken_from dsk parent base counter"
    using assms by (simp add: taken_from_def)
  moreover have "counter \<notin> taken_from dsk parent base (Suc counter)"
    by (simp add: taken_from_def)
  moreover have "taken_from dsk parent base (Suc counter) \<subseteq> taken_from dsk parent base counter"
    by (auto simp: taken_from_def)
  ultimately have "taken_from dsk parent base (Suc counter) \<subset> taken_from dsk parent base counter"
    by blast
  then show ?thesis by (simp add: finite_taken psubset_card_mono)
qed

lemma taken_same:
  "path_join parent (candidate_name base counter) \<notin> set dsk \<Longrightarrow>
     taken_from dsk parent base (Suc counter) = taken_from dsk parent base counter"
  by (auto simp: taken_from_def) (metis Suc_leI le_neq_implies_less)

text \<open>
  The loop ends: each turn either moves past a candidate that exists, of which there
  are finitely many, or reaches a candidate that does not exist and stops at the next
  test.
\<close>

termination unique_dir
proof (relation "measures
    [\<lambda>(dsk, parent, base, output_dir, counter). card (taken_from dsk parent base counter),
     \<lambda>(dsk, parent, base, output_dir, counter). if output_dir \<in> set dsk then 1 else 0]")
  show "wf (measures
    [\<lambda>(dsk, parent, base, output_dir, counter). card (taken_from dsk parent base counter),
     \<lambda>(dsk, parent, base, output_dir, counter). if output_dir \<in> set dsk then 1 else (0::nat)])"
    by simp
next
  fix dsk :: "path list" and parent :: path and base :: string
    and output_dir :: path and counter :: nat
  assume "output_dir \<in> set dsk"
  then show "((dsk, parent, base, path_join parent (candidate_name base counter), Suc counter),
              (dsk, parent, base, output_dir, counter))
        \<in> measures
    [\<lambda>(dsk, parent, base, output_dir, counter). card (taken_from dsk parent base counter),
     \<lambda>(dsk, parent, base, output_dir, counter). if output_dir \<in> set dsk then 1 else 0]"
    using taken_step[of parent base counter dsk] taken_same[of parent base counter dsk]
    by (cases "path_join parent (candidate_name base counter) \<in> set dsk") auto
qed

declare unique_dir.simps [simp del]

section \<open>Grouping and the primary part\<close>

lemma upper_not_digit: "is_upper c \<Longrightarrow> \<not> is_digit c \<and> c \<noteq> CHR 0x0A"
  by (auto simp: is_upper_def is_digit_def less_eq_char_def)

lemma lower_r_plain: "lower_char c = CHR ''r'' \<Longrightarrow> \<not> is_digit c \<and> c \<noteq> CHR 0x0A"
proof (cases "is_upper c")
  case True
  then show ?thesis using upper_not_digit by blast
next
  case False
  assume "lower_char c = CHR ''r''"
  with False have "c = CHR ''r''" by (simp add: lower_char_def)
  then show ?thesis by (simp add: is_digit_def less_eq_char_def)
qed

lemma part_token_last: "is_part_token t \<Longrightarrow> t \<noteq> [] \<and> is_digit (last t)"
proof -
  assume h: "is_part_token t"
  have d: "\<And>xs. xs \<noteq> [] \<Longrightarrow> list_all is_digit xs \<Longrightarrow> is_digit (last xs)"
    by (simp add: list_all_iff)
  have l: "\<And>n. n < length t \<Longrightarrow> last (drop n t) = last t"
    by simp
  from h consider
      (a) "1 \<le> length (drop 4 t)" "list_all is_digit (drop 4 t)"
    | (b) "length t = 3" "list_all is_digit (drop 1 t)"
    | (c) "length t = 3" "list_all is_digit t"
    unfolding is_part_token_def by blast
  then show ?thesis
  proof cases
    case a
    then have "drop 4 t \<noteq> []" by auto
    with a d[of "drop 4 t"] l[of 4] show ?thesis by auto
  next
    case b
    then have "drop 1 t \<noteq> []" by auto
    with b d[of "drop 1 t"] l[of 1] show ?thesis by auto
  next
    case c
    then have "t \<noteq> []" by auto
    with c d[of t] show ?thesis by auto
  qed
qed

lemma token_at_end_last:
  "token_at_end t \<Longrightarrow> t \<noteq> [] \<and> (is_digit (last t) \<or> last t = CHR 0x0A)"
  unfolding token_at_end_def using part_token_last by blast

lemma part_regex_scan_Some:
  "part_regex_scan pre s = Some g \<Longrightarrow>
     \<exists>tail. pre @ s = g @ CHR ''.'' # tail \<and> token_at_end tail"
proof (induction s arbitrary: pre)
  case Nil
  then show ?case by simp
next
  case (Cons c cs)
  show ?case
  proof (cases "pre \<noteq> [] \<and> c = CHR ''.'' \<and> token_at_end cs")
    case True
    with Cons.prems show ?thesis by auto
  next
    case False
    with Cons.prems have "part_regex_scan (pre @ [c]) cs = Some g"
      by (auto split: if_splits)
    from Cons.IH[OF this] show ?thesis by simp
  qed
qed

lemma rar_suffix_last:
  assumes "lower (path_suffix a) = ''.rar''"
  shows "path_name a \<noteq> [] \<and> lower_char (last (path_name a)) = CHR ''r''"
proof -
  let ?nm = "path_name a"
  from assms have ne: "path_suffix a \<noteq> []" by (auto simp: lower_def)
  then obtain i where i: "path_suffix a = drop i ?nm" "i < length ?nm"
    by (auto simp: path_suffix_def Let_def split: option.splits if_splits)
  then have "last (path_suffix a) = last ?nm" by simp
  moreover have "lower_char (last (path_suffix a)) = last (lower (path_suffix a))"
    using ne by (simp add: lower_def last_map)
  ultimately show ?thesis using assms i by auto
qed

text \<open>
  A name whose suffix is \<open>.rar\<close> in any case ends in a letter, and the pattern asks for
  a digit (or a line feed) at the end: the second try of \<open>base_name\<close> never matches.
\<close>

lemma rar_name_no_match:
  assumes "lower (path_suffix a) = ''.rar''"
  shows "PART_REGEX_match (path_name a) = None"
proof (rule ccontr)
  assume "PART_REGEX_match (path_name a) \<noteq> None"
  then obtain g where "part_regex_scan [] (path_name a) = Some g"
    by (auto simp: PART_REGEX_match_def)
  from part_regex_scan_Some[OF this] obtain tail where
    t: "path_name a = g @ CHR ''.'' # tail" "token_at_end tail" by auto
  from token_at_end_last[OF t(2)]
  have tl: "tail \<noteq> []" "is_digit (last tail) \<or> last tail = CHR 0x0A"
    by auto
  from t(1) tl(1) have "last (path_name a) = last tail" by simp
  with rar_suffix_last[OF assms] lower_r_plain[of "last tail"] tl(2) show False by auto
qed

lemma base_name_refines: "base_name a = spec_base_name a"
proof (cases "lower (path_suffix a) = ''.rar''")
  case True
  then have "PART_REGEX_match (path_name a) = None" by (rule rar_name_no_match)
  then show ?thesis
    by (simp add: base_name_def spec_base_name_def Let_def split: option.splits)
next
  case False
  then have "path_suffix a \<noteq> ''.rar''"
    by (auto simp: lower_def lower_char_def is_upper_def less_eq_char_def)
  with False show ?thesis
    by (simp add: base_name_def spec_base_name_def Let_def split: option.splits)
qed

lemma sets_append_keys:
  "map fst (sets_append s b a) = (if b \<in> set (map fst s) then map fst s else map fst s @ [b])"
  by (induction s b a rule: sets_append.induct) auto

lemma sets_append_map_of:
  "map_of (sets_append s b a) =
     (map_of s)(b \<mapsto> (case map_of s b of None \<Rightarrow> [a] | Some v \<Rightarrow> v @ [a]))"
  by (induction s b a rule: sets_append.induct) (auto simp: fun_eq_iff)

lemma groups_of_step:
  assumes "groups_of key xs sets"
  shows "groups_of key (xs @ [a]) (sets_append sets (key a) a)"
proof -
  from assms have d: "distinct (map fst sets)" and k: "set (map fst sets) = key ` set xs"
    and m: "\<forall>b \<in> key ` set xs. map_of sets b = Some (filter (\<lambda>a. key a = b) xs)"
    by (auto simp: groups_of_def)
  have d': "distinct (map fst (sets_append sets (key a) a))"
    using d by (simp add: sets_append_keys)
  have k': "set (map fst (sets_append sets (key a) a)) = key ` set (xs @ [a])"
    using k by (auto simp: sets_append_keys)
  have m': "map_of (sets_append sets (key a) a) b = Some (filter (\<lambda>x. key x = b) (xs @ [a]))"
    if "b \<in> key ` set (xs @ [a])" for b
  proof (cases "b = key a")
    case True
    show ?thesis
    proof (cases "key a \<in> key ` set xs")
      case True
      with m have "map_of sets (key a) = Some (filter (\<lambda>x. key x = key a) xs)" by blast
      with \<open>b = key a\<close> show ?thesis by (simp add: sets_append_map_of)
    next
      case False
      then have "map_of sets (key a) = None"
        using k by (metis map_of_eq_None_iff set_map)
      moreover from False have "filter (\<lambda>x. key x = key a) xs = []"
        by (metis (mono_tags, lifting) filter_False image_eqI)
      ultimately show ?thesis using \<open>b = key a\<close> by (simp add: sets_append_map_of)
    qed
  next
    case False
    with that have "b \<in> key ` set xs" by auto
    with m have "map_of sets b = Some (filter (\<lambda>x. key x = b) xs)" by blast
    with False show ?thesis by (simp add: sets_append_map_of)
  qed
  show ?thesis unfolding groups_of_def using d' k' m' by blast
qed

lemma groups_of_foldl:
  "groups_of key xs (foldl (\<lambda>sets a. sets_append sets (key a) a) [] xs)"
proof (induction xs rule: rev_induct)
  case Nil
  show ?case by (simp add: groups_of_def)
next
  case (snoc a xs)
  from groups_of_step[OF snoc.IH, of a] show ?case by simp
qed

lemma archive_sets_groups:
  "distinct (map fst (archive_sets all_archives))
   \<and> set (map fst (archive_sets all_archives)) = base_name ` set all_archives
   \<and> (\<forall>(b, file_list) \<in> set (archive_sets all_archives).
         file_list = filter (\<lambda>a. base_name a = b) all_archives)"
proof -
  have g: "groups_of base_name all_archives (archive_sets all_archives)"
    unfolding archive_sets_def by (rule groups_of_foldl)
  then have d: "distinct (map fst (archive_sets all_archives))"
    and k: "set (map fst (archive_sets all_archives)) = base_name ` set all_archives"
    and m: "\<forall>b \<in> base_name ` set all_archives.
              map_of (archive_sets all_archives) b
                = Some (filter (\<lambda>a. base_name a = b) all_archives)"
    by (auto simp: groups_of_def)
  have "file_list = filter (\<lambda>a. base_name a = b) all_archives"
    if "(b, file_list) \<in> set (archive_sets all_archives)" for b file_list
  proof -
    from that d have "map_of (archive_sets all_archives) b = Some file_list" by simp
    moreover from that k have "b \<in> base_name ` set all_archives"
      by (metis fst_conv image_eqI set_map)
    ultimately show ?thesis using m by auto
  qed
  with d k show ?thesis by blast
qed

text \<open>
  C5. In every archive set the primary part is the first part, in the order of the
  set, whose suffix is \<open>.rar\<close> in any case; when the set has no such part it is the
  least path of the set in the order of \<open>Path\<close>, which compares the components one by
  one, each as a string. The choice is a function of the list of parts.
\<close>

theorem primary_file_selection:
  "(\<forall>pre r post. file_list = pre @ r # post \<and> is_rar r \<and> (\<forall>x\<in>set pre. \<not> is_rar x)
      \<longrightarrow> primary_file file_list = Some r)
   \<and> (file_list \<noteq> [] \<and> (\<forall>x\<in>set file_list. \<not> is_rar x)
      \<longrightarrow> (\<exists>m. primary_file file_list = Some m \<and> m \<in> set file_list
               \<and> (\<forall>x\<in>set file_list. m \<le> x)))"
proof (intro conjI allI impI)
  fix pre r post
  assume h: "file_list = pre @ r # post \<and> is_rar r \<and> (\<forall>x\<in>set pre. \<not> is_rar x)"
  then have "filter is_rar file_list = r # filter is_rar post"
    by simp
  then show "primary_file file_list = Some r"
    by (simp add: primary_file_def)
next
  assume h: "file_list \<noteq> [] \<and> (\<forall>x\<in>set file_list. \<not> is_rar x)"
  then have nr: "filter is_rar file_list = []" by simp
  from h have "sort file_list \<noteq> []" by (metis length_sort length_0_conv)
  then obtain m ms where s: "sort file_list = m # ms" by (cases "sort file_list") auto
  have "sorted (m # ms)" using s by (metis sorted_sort)
  then have le: "\<forall>x\<in>set (m # ms). m \<le> x" by auto
  have st: "set (m # ms) = set file_list" using s by (metis set_sort)
  show "\<exists>m. primary_file file_list = Some m \<and> m \<in> set file_list
          \<and> (\<forall>x\<in>set file_list. m \<le> x)"
    using nr s le st by (auto simp: primary_file_def)
qed

text \<open>
  A set with two \<open>.rar\<close> parts, where the first one met wins, and a set without any,
  where the least path wins.
\<close>

theorem primary_file_selection_witness:
  "primary_file [[''d'', ''x.r00''], [''d'', ''x.RAR''], [''d'', ''x.rar'']] = Some [''d'', ''x.RAR'']
   \<and> (\<exists>m. primary_file [[''d'', ''a.7z.002''], [''d'', ''a.7z.001'']] = Some m
          \<and> m \<le> [''d'', ''a.7z.002''] \<and> m \<le> [''d'', ''a.7z.001''])"
proof -
  have r1: "is_rar [''d'', ''x.RAR'']" by code_simp
  have r2: "\<not> is_rar [''d'', ''x.r00'']" by code_simp
  have r3: "\<not> is_rar [''d'', ''a.7z.002'']" by code_simp
  have r4: "\<not> is_rar [''d'', ''a.7z.001'']" by code_simp
  have "[[''d'', ''x.r00''], [''d'', ''x.RAR''], [''d'', ''x.rar'']]
          = [[''d'', ''x.r00'']] @ [''d'', ''x.RAR''] # [[''d'', ''x.rar'']]
        \<and> is_rar [''d'', ''x.RAR''] \<and> (\<forall>x\<in>set [[''d'', ''x.r00'']]. \<not> is_rar x)"
    using r1 r2 by simp
  with primary_file_selection[of "[[''d'', ''x.r00''], [''d'', ''x.RAR''], [''d'', ''x.rar'']]"]
  have a: "primary_file [[''d'', ''x.r00''], [''d'', ''x.RAR''], [''d'', ''x.rar'']]
             = Some [''d'', ''x.RAR'']"
    by blast
  have "[[''d'', ''a.7z.002''], [''d'', ''a.7z.001'']] \<noteq> []
        \<and> (\<forall>x\<in>set [[''d'', ''a.7z.002''], [''d'', ''a.7z.001'']]. \<not> is_rar x)"
    using r3 r4 by simp
  with primary_file_selection[of "[[''d'', ''a.7z.002''], [''d'', ''a.7z.001'']]"]
  have "\<exists>m. primary_file [[''d'', ''a.7z.002''], [''d'', ''a.7z.001'']] = Some m
          \<and> m \<in> set [[''d'', ''a.7z.002''], [''d'', ''a.7z.001'']]
          \<and> (\<forall>x\<in>set [[''d'', ''a.7z.002''], [''d'', ''a.7z.001'']]. m \<le> x)"
    by blast
  then have b: "\<exists>m. primary_file [[''d'', ''a.7z.002''], [''d'', ''a.7z.001'']] = Some m
          \<and> m \<le> [''d'', ''a.7z.002''] \<and> m \<le> [''d'', ''a.7z.001'']"
    by auto
  from a b show ?thesis by blast
qed

text \<open>
  C6. The base name computed by \<open>unpack_archives\<close> is the one the specification
  describes: the group captured from the stem when the pattern matches it; otherwise,
  for a file whose extension is \<open>.rar\<close>, the group captured from the full name when the
  pattern matches that; otherwise the stem. The candidates are then grouped by base
  name: the keys are the base names that occur, each once, and each set is the
  sub-sequence of the candidates with that base name, in the order they were met.
\<close>

theorem base_name_grouping:
  "base_name archive = spec_base_name archive
   \<and> distinct (map fst (archive_sets all_archives))
   \<and> set (map fst (archive_sets all_archives)) = base_name ` set all_archives
   \<and> (\<forall>(b, file_list) \<in> set (archive_sets all_archives).
         file_list = filter (\<lambda>a. base_name a = b) all_archives)"
  using base_name_refines[of archive] archive_sets_groups[of all_archives] by blast

text \<open>
  Three candidates of two sets: \<open>x.r00\<close> and \<open>x.rar\<close> share the base name \<open>x\<close> and
  keep their order.
\<close>

theorem base_name_grouping_witness:
  "(''x'', [[''d'', ''x.r00''], [''d'', ''x.rar'']])
        \<in> set (archive_sets [[''d'', ''x.r00''], [''d'', ''y.part1.rar''], [''d'', ''x.rar'']])
   \<and> [[''d'', ''x.r00''], [''d'', ''x.rar'']]
        = filter (\<lambda>a. base_name a = ''x'')
            [[''d'', ''x.r00''], [''d'', ''y.part1.rar''], [''d'', ''x.rar'']]"
proof -
  let ?all = "[[''d'', ''x.r00''], [''d'', ''y.part1.rar''], [''d'', ''x.rar'']]"
  have m: "(''x'', [[''d'', ''x.r00''], [''d'', ''x.rar'']]) \<in> set (archive_sets ?all)"
    by code_simp
  from base_name_grouping[of "[''d'', ''x.rar'']" ?all]
  have "\<forall>(b, file_list) \<in> set (archive_sets ?all).
          file_list = filter (\<lambda>a. base_name a = b) ?all"
    by blast
  with m have "[[''d'', ''x.r00''], [''d'', ''x.rar'']] = filter (\<lambda>a. base_name a = ''x'') ?all"
    by blast
  with m show ?thesis by blast
qed

section \<open>Extraction\<close>

lemma gui_put_fields [simp]:
  "disk (gui_put m w) = disk w" "history (gui_put m w) = history w" "calls (gui_put m w) = calls w"
  "gui_queue (gui_put m w) = gui_queue w @ [m]"
  by (simp_all add: gui_put_def)

lemma log_event_fields:
  "disk (log_extraction_event st nm pth w) = disk w"
  "history (log_extraction_event st nm pth w) = Some (file_text (history w) @ record_line st nm pth)"
  "calls (log_extraction_event st nm pth w) = calls w @ [AppendHistory st nm pth]"
  by (simp_all add: log_extraction_event_def Let_def)

lemma unique_dir_result:
  "unique_dir dsk parent base od c \<notin> set dsk
   \<and> (od \<notin> set dsk \<longrightarrow> unique_dir dsk parent base od c = od)
   \<and> (od \<in> set dsk \<longrightarrow>
        (\<exists>k\<ge>c. unique_dir dsk parent base od c = path_join parent (candidate_name base k)
           \<and> (\<forall>j. c \<le> j \<and> j < k \<longrightarrow> path_join parent (candidate_name base j) \<in> set dsk)))"
proof (induction dsk parent base od c rule: unique_dir.induct)
  case (1 dsk parent base od c)
  let ?cand = "\<lambda>k. path_join parent (candidate_name base k)"
  show ?case
  proof (cases "od \<in> set dsk")
    case False
    then show ?thesis by (simp add: unique_dir.simps[of dsk parent base od c])
  next
    case True
    then have u: "unique_dir dsk parent base od c = unique_dir dsk parent base (?cand c) (Suc c)"
      by (simp add: unique_dir.simps[of dsk parent base od c])
    note IH = "1.IH"[OF True]
    show ?thesis
    proof (cases "?cand c \<in> set dsk")
      case False
      with IH have "unique_dir dsk parent base (?cand c) (Suc c) = ?cand c" by blast
      with u False True show ?thesis by auto
    next
      case c_in: True
      with IH obtain k where k: "Suc c \<le> k"
        "unique_dir dsk parent base (?cand c) (Suc c) = ?cand k"
        "\<forall>j. Suc c \<le> j \<and> j < k \<longrightarrow> ?cand j \<in> set dsk"
        by blast
      have "\<forall>j. c \<le> j \<and> j < k \<longrightarrow> ?cand j \<in> set dsk"
      proof (intro allI impI)
        fix j assume "c \<le> j \<and> j < k"
        then have "j = c \<or> (Suc c \<le> j \<and> j < k)" by auto
        with c_in k(3) show "?cand j \<in> set dsk" by blast
      qed
      moreover from k(1) have "c \<le> k" by simp
      moreover from IH have "unique_dir dsk parent base (?cand c) (Suc c) \<notin> set dsk" by blast
      ultimately show ?thesis using u k(2) True by auto
    qed
  qed
qed

lemma remove_parts_calls:
  "\<exists>r. calls (remove_parts E ps w) = calls w @ r
       \<and> (\<forall>c\<in>set r. \<exists>p. c = RemoveFile p \<or> c = RemoveFailed p)"
proof (induction ps arbitrary: w)
  case Nil
  show ?case by simp
next
  case (Cons p ps)
  let ?w1 = "if p \<in> set (disk w) \<and> remove_allowed E p
        then w\<lparr>disk := removeAll p (disk w), calls := calls w @ [RemoveFile p]\<rparr>
        else w\<lparr>calls := calls w @ [RemoveFailed p]\<rparr>"
  from Cons.IH[of ?w1] obtain r where
    r: "calls (remove_parts E ps ?w1) = calls ?w1 @ r"
       "\<forall>c\<in>set r. \<exists>p. c = RemoveFile p \<or> c = RemoveFailed p" by blast
  have "\<exists>c. calls ?w1 = calls w @ [c] \<and> (c = RemoveFile p \<or> c = RemoveFailed p)" by simp
  then obtain c where c: "calls ?w1 = calls w @ [c]" "c = RemoveFile p \<or> c = RemoveFailed p" by blast
  have "calls (remove_parts E (p # ps) w) = calls w @ (c # r)"
    using r(1) c(1) by simp
  moreover have "\<forall>c'\<in>set (c # r). \<exists>p. c' = RemoveFile p \<or> c' = RemoveFailed p"
    using r(2) c(2) by auto
  ultimately show ?case by blast
qed

lemma run_extraction_failure:
  assumes "fst (tool E (tool_command U archive_path od) (disk w)) \<noteq> Exit 0"
  shows "disk (run_extraction E U archive_path all_parts od nm w)
           = snd (tool E (tool_command U archive_path od) (disk w))"
    and "history (run_extraction E U archive_path all_parts od nm w)
           = Some (file_text (history w) @ record_line ''FAILURE'' nm (path_str od))"
    and "calls (run_extraction E U archive_path all_parts od nm w)
           = calls w @ [RunTool (tool_command U archive_path od),
                        AppendHistory ''FAILURE'' nm (path_str od)]"
proof -
  obtain res dsk where t: "tool E (tool_command U archive_path od) (disk w) = (res, dsk)"
    by (cases "tool E (tool_command U archive_path od) (disk w)") auto
  with assms have r: "res \<noteq> Exit 0" by simp
  show "disk (run_extraction E U archive_path all_parts od nm w)
           = snd (tool E (tool_command U archive_path od) (disk w))"
    using t r by (simp add: run_extraction_def Let_def log_event_fields)
  show "history (run_extraction E U archive_path all_parts od nm w)
           = Some (file_text (history w) @ record_line ''FAILURE'' nm (path_str od))"
    using t r by (simp add: run_extraction_def Let_def log_event_fields)
  show "calls (run_extraction E U archive_path all_parts od nm w)
           = calls w @ [RunTool (tool_command U archive_path od),
                        AppendHistory ''FAILURE'' nm (path_str od)]"
    using t r by (simp add: run_extraction_def Let_def log_event_fields)
qed

lemma run_extraction_calls:
  "\<exists>st rest. calls (run_extraction E U archive_path all_parts od nm w)
       = calls w @ [RunTool (tool_command U archive_path od), AppendHistory st nm (path_str od)] @ rest
       \<and> (\<forall>c\<in>set rest. \<exists>p. c = RemoveFile p \<or> c = RemoveFailed p)"
proof -
  obtain res dsk where t: "tool E (tool_command U archive_path od) (disk w) = (res, dsk)"
    by (cases "tool E (tool_command U archive_path od) (disk w)") auto
  let ?w2 = "(gui_put ProgressStart (gui_put (Status (''Extracting: '' @ path_name archive_path)) w))
              \<lparr>disk := dsk, calls := calls w @ [RunTool (tool_command U archive_path od)]\<rparr>"
  show ?thesis
  proof (cases "res = Exit 0 \<and> delete_on_success U")
    case True
    let ?w4 = "log_extraction_event ''SUCCESS'' nm (path_str od) ?w2"
    from remove_parts_calls[of E all_parts ?w4] obtain r where
      r: "calls (remove_parts E all_parts ?w4) = calls ?w4 @ r"
         "\<forall>c\<in>set r. \<exists>p. c = RemoveFile p \<or> c = RemoveFailed p" by blast
    have "calls (run_extraction E U archive_path all_parts od nm w)
            = calls (remove_parts E all_parts ?w4)"
      using True t by (simp add: run_extraction_def Let_def)
    with r show ?thesis by (auto simp: log_event_fields)
  next
    case False
    then have "\<exists>st. calls (run_extraction E U archive_path all_parts od nm w)
       = calls w @ [RunTool (tool_command U archive_path od), AppendHistory st nm (path_str od)]"
      using t by (auto simp: run_extraction_def Let_def log_event_fields)
    then show ?thesis by auto
  qed
qed


lemma extract_archive_subfolder:
  assumes "create_subfolder U" and "mkdir_allowed E (output_dir_of U w archive_path tn)"
  shows "extract_archive E U archive_path all_parts tn w =
           (None, run_extraction E U archive_path all_parts (output_dir_of U w archive_path tn)
                    (extraction_name_of U w archive_path tn)
                    (w\<lparr>disk := disk_before_tool U w archive_path tn,
                       calls := calls w @ [Mkdir (output_dir_of U w archive_path tn)]\<rparr>))"
  using assms
  by (simp add: extract_archive_def output_dir_of_def extraction_name_of_def
        disk_before_tool_def Let_def)

lemma extract_archive_flat:
  assumes "\<not> create_subfolder U"
  shows "extract_archive E U archive_path all_parts tn w =
           (None, run_extraction E U archive_path all_parts (output_dir_of U w archive_path tn)
                    (extraction_name_of U w archive_path tn) w)"
  using assms
  by (simp add: extract_archive_def output_dir_of_def extraction_name_of_def Let_def)

text \<open>
  C3, as amended. In subfolder mode, when \<open>mkdir\<close> goes through, the output directory
  is \<open>parent(primary.path) / name\<close> when nothing of that name exists there. When it
  exists, the directory is \<open>parent / "name (k)"\<close> for the first \<open>k = 1, 2, ...\<close> that
  is free: the counter starts at 1, and every candidate before the chosen one exists.
  The chosen directory does not exist before the call, it is on the disk the tool
  finds, and \<open>mkdir\<close> is called for it right before the tool is run on it.
\<close>

theorem subfolder_directory_allocation:
  assumes "create_subfolder U"
    and "mkdir_allowed E (output_dir_of U w archive_path tn)"
  shows "(path_join (path_parent archive_path) tn \<notin> set (disk w) \<longrightarrow>
            output_dir_of U w archive_path tn = path_join (path_parent archive_path) tn)
       \<and> (path_join (path_parent archive_path) tn \<in> set (disk w) \<longrightarrow>
            (\<exists>k\<ge>1. output_dir_of U w archive_path tn
                       = path_join (path_parent archive_path) (candidate_name tn k)
                \<and> (\<forall>j. 1 \<le> j \<and> j < k \<longrightarrow>
                       path_join (path_parent archive_path) (candidate_name tn j) \<in> set (disk w))))
       \<and> output_dir_of U w archive_path tn \<notin> set (disk w)
       \<and> output_dir_of U w archive_path tn \<in> set (disk_before_tool U w archive_path tn)
       \<and> fst (extract_archive E U archive_path all_parts tn w) = None
       \<and> (\<exists>rest. calls (snd (extract_archive E U archive_path all_parts tn w))
                   = calls w @ [Mkdir (output_dir_of U w archive_path tn),
                                RunTool (tool_command U archive_path
                                           (output_dir_of U w archive_path tn))] @ rest)"
proof -
  let ?od = "output_dir_of U w archive_path tn"
  have od: "?od = unique_dir (disk w) (path_parent archive_path) tn
                    (path_join (path_parent archive_path) tn) 1"
    using assms(1) by (simp add: output_dir_of_def choose_output_dir_def)
  note u = unique_dir_result[of "disk w" "path_parent archive_path" tn
              "path_join (path_parent archive_path) tn" 1]
  have a: "path_join (path_parent archive_path) tn \<notin> set (disk w) \<longrightarrow>
            ?od = path_join (path_parent archive_path) tn"
    using u od by simp
  have b: "path_join (path_parent archive_path) tn \<in> set (disk w) \<longrightarrow>
            (\<exists>k\<ge>1. ?od = path_join (path_parent archive_path) (candidate_name tn k)
                \<and> (\<forall>j. 1 \<le> j \<and> j < k \<longrightarrow>
                       path_join (path_parent archive_path) (candidate_name tn j) \<in> set (disk w)))"
    using u od by simp
  have c: "?od \<notin> set (disk w)" using u od by simp
  have d: "?od \<in> set (disk_before_tool U w archive_path tn)"
    using assms(1) by (simp add: disk_before_tool_def)
  note ex = extract_archive_subfolder[OF assms, of all_parts]
  have e: "fst (extract_archive E U archive_path all_parts tn w) = None"
    using ex by simp
  from run_extraction_calls[of E U archive_path all_parts ?od
         "extraction_name_of U w archive_path tn"
         "w\<lparr>disk := disk_before_tool U w archive_path tn, calls := calls w @ [Mkdir ?od]\<rparr>"]
  obtain st rest where
    "calls (snd (extract_archive E U archive_path all_parts tn w))
       = (calls w @ [Mkdir ?od]) @ [RunTool (tool_command U archive_path ?od),
            AppendHistory st (extraction_name_of U w archive_path tn) (path_str ?od)] @ rest"
    using ex by auto
  then have f: "\<exists>rest. calls (snd (extract_archive E U archive_path all_parts tn w))
                   = calls w @ [Mkdir ?od, RunTool (tool_command U archive_path ?od)] @ rest"
    by simp
  from a b c d e f show ?thesis by blast
qed

text \<open>
  C8. When the invocation of the tool ends in anything but exit status 0, be it another
  status or an exception, \<open>extract_archive\<close> returns normally, the history gains
  exactly one line, a \<open>FAILURE\<close> record, and the program makes no call after the tool
  other than that append: the disk is left as the tool left it, whatever
  \<open>delete_on_success\<close> says, so that every part still there after the tool is there at
  the end and no \<open>os.remove\<close> is issued for it.
\<close>

theorem extraction_failure_atomic:
  assumes "create_subfolder U \<longrightarrow> mkdir_allowed E (output_dir_of U w archive_path tn)"
    and "fst (tool_outcome E U w archive_path tn) \<noteq> Exit 0"
  shows "fst (extract_archive E U archive_path all_parts tn w) = None
       \<and> history (snd (extract_archive E U archive_path all_parts tn w))
           = Some (file_text (history w)
                   @ record_line ''FAILURE'' (extraction_name_of U w archive_path tn)
                       (path_str (output_dir_of U w archive_path tn)))
       \<and> calls (snd (extract_archive E U archive_path all_parts tn w))
           = calls w @ (if create_subfolder U then [Mkdir (output_dir_of U w archive_path tn)] else [])
             @ [RunTool (tool_command U archive_path (output_dir_of U w archive_path tn)),
                AppendHistory ''FAILURE'' (extraction_name_of U w archive_path tn)
                  (path_str (output_dir_of U w archive_path tn))]
       \<and> disk (snd (extract_archive E U archive_path all_parts tn w))
           = snd (tool_outcome E U w archive_path tn)
       \<and> (\<forall>p\<in>set all_parts. p \<in> set (snd (tool_outcome E U w archive_path tn)) \<longrightarrow>
             p \<in> set (disk (snd (extract_archive E U archive_path all_parts tn w)))
             \<and> RemoveFile p \<notin> set (drop (length (calls w))
                   (calls (snd (extract_archive E U archive_path all_parts tn w)))))"
proof (cases "create_subfolder U")
  case True
  let ?od = "output_dir_of U w archive_path tn"
  let ?w1 = "w\<lparr>disk := disk_before_tool U w archive_path tn, calls := calls w @ [Mkdir ?od]\<rparr>"
  from True assms(1) have m: "mkdir_allowed E ?od" by simp
  note ex = extract_archive_subfolder[OF True m, of all_parts]
  have t: "fst (tool E (tool_command U archive_path ?od) (disk ?w1)) \<noteq> Exit 0"
    using assms(2) by (simp add: tool_outcome_def)
  note r = run_extraction_failure[OF t, of all_parts "extraction_name_of U w archive_path tn"]
  show ?thesis using ex r True by (simp add: tool_outcome_def)
next
  case False
  let ?od = "output_dir_of U w archive_path tn"
  note ex = extract_archive_flat[OF False, of E archive_path all_parts tn w]
  have t: "fst (tool E (tool_command U archive_path ?od) (disk w)) \<noteq> Exit 0"
    using assms(2) False by (simp add: tool_outcome_def disk_before_tool_def)
  note r = run_extraction_failure[OF t, of all_parts "extraction_name_of U w archive_path tn"]
  show ?thesis using ex r False by (simp add: tool_outcome_def disk_before_tool_def)
qed


text \<open>
  The directory for a download \<open>T\<close> next to which a \<open>T\<close> already exists.
\<close>

theorem subfolder_directory_allocation_witness:
  "create_subfolder (example_unpacker False True)
   \<and> mkdir_allowed (example_env (Exit 0) [] [])
        (output_dir_of (example_unpacker False True)
           (example_world [[''d''], [''d'', ''a.rar''], [''d'', ''T'']]) [''d'', ''a.rar''] ''T'')
   \<and> output_dir_of (example_unpacker False True)
        (example_world [[''d''], [''d'', ''a.rar''], [''d'', ''T'']]) [''d'', ''a.rar''] ''T''
        \<notin> set (disk (example_world [[''d''], [''d'', ''a.rar''], [''d'', ''T'']]))
   \<and> fst (extract_archive (example_env (Exit 0) [] []) (example_unpacker False True)
             [''d'', ''a.rar''] [[''d'', ''a.rar'']] ''T''
             (example_world [[''d''], [''d'', ''a.rar''], [''d'', ''T'']])) = None"
proof -
  have h1: "create_subfolder (example_unpacker False True)"
    by (simp add: example_unpacker_def)
  have h2: "mkdir_allowed (example_env (Exit 0) [] [])
        (output_dir_of (example_unpacker False True)
           (example_world [[''d''], [''d'', ''a.rar''], [''d'', ''T'']]) [''d'', ''a.rar''] ''T'')"
    by (simp add: example_env_def)
  from subfolder_directory_allocation[OF h1 h2, of "[[''d'', ''a.rar'']]"] h1 h2
  show ?thesis by blast
qed

text \<open>
  C3 as the specification words it expects \<open>T (2)\<close> as the first name tried after
  \<open>T\<close>; the loop starts its counter at 1 and takes \<open>T (1)\<close>.
\<close>

theorem subfolder_numbering_counterexample:
  "path_join (path_parent [''d'', ''a.rar'']) ''T''
     \<in> set (disk (example_world [[''d''], [''d'', ''a.rar''], [''d'', ''T'']]))
   \<and> output_dir_of (example_unpacker False True)
        (example_world [[''d''], [''d'', ''a.rar''], [''d'', ''T'']]) [''d'', ''a.rar''] ''T''
       = [''d'', ''T (1)'']
   \<and> output_dir_of (example_unpacker False True)
        (example_world [[''d''], [''d'', ''a.rar''], [''d'', ''T'']]) [''d'', ''a.rar''] ''T''
       \<noteq> path_join (path_parent [''d'', ''a.rar'']) (''T'' @ '' (2)'')"
  by code_simp

text \<open>
  A failing tool with \<open>delete_on_success\<close> switched on: the archive stays.
\<close>

theorem extraction_failure_atomic_witness:
  "fst (tool_outcome (example_env (Exit 2) [] []) (example_unpacker True True)
          (example_world [[''d''], [''d'', ''a.rar'']]) [''d'', ''a.rar''] ''T'') \<noteq> Exit 0
   \<and> delete_on_success (example_unpacker True True)
   \<and> [''d'', ''a.rar''] \<in> set (disk (snd (extract_archive (example_env (Exit 2) [] [])
          (example_unpacker True True) [''d'', ''a.rar''] [[''d'', ''a.rar'']] ''T''
          (example_world [[''d''], [''d'', ''a.rar'']]))))
   \<and> history (snd (extract_archive (example_env (Exit 2) [] [])
          (example_unpacker True True) [''d'', ''a.rar''] [[''d'', ''a.rar'']] ''T''
          (example_world [[''d''], [''d'', ''a.rar'']])))
       = Some (record_line ''FAILURE'' ''T'' ''/d/T'')"
proof -
  let ?E = "example_env (Exit 2) [] []" and ?U = "example_unpacker True True"
  let ?w = "example_world [[''d''], [''d'', ''a.rar'']]"
  have h1: "create_subfolder ?U \<longrightarrow> mkdir_allowed ?E (output_dir_of ?U ?w [''d'', ''a.rar''] ''T'')"
    by (simp add: example_env_def)
  have h2: "fst (tool_outcome ?E ?U ?w [''d'', ''a.rar''] ''T'') \<noteq> Exit 0"
    by (simp add: tool_outcome_def example_env_def)
  have d: "delete_on_success ?U" by (simp add: example_unpacker_def)
  have p: "[''d'', ''a.rar''] \<in> set (snd (tool_outcome ?E ?U ?w [''d'', ''a.rar''] ''T''))"
    by (simp add: tool_outcome_def example_env_def disk_before_tool_def example_world_def)
  have n: "extraction_name_of ?U ?w [''d'', ''a.rar''] ''T'' = ''T''" by code_simp
  have o: "path_str (output_dir_of ?U ?w [''d'', ''a.rar''] ''T'') = ''/d/T''" by code_simp
  have f: "file_text (history ?w) = []" by (simp add: example_world_def file_text_def)
  note t = extraction_failure_atomic[OF h1 h2, of "[[''d'', ''a.rar'']]"]
  from t p have "[''d'', ''a.rar''] \<in> set (disk (snd (extract_archive ?E ?U [''d'', ''a.rar'']
            [[''d'', ''a.rar'']] ''T'' ?w)))"
    by simp
  moreover from t n o f have "history (snd (extract_archive ?E ?U [''d'', ''a.rar'']
            [[''d'', ''a.rar'']] ''T'' ?w)) = Some (record_line ''FAILURE'' ''T'' ''/d/T'')"
    by simp
  ultimately show ?thesis using h2 d by blast
qed

text \<open>
  C10, as amended. In subfolder mode, when the tool fails and touches nothing but
  entries below the directory it was given: the directory made for the extraction did
  not exist before and exists afterwards, its path is the \<open>PATH\<close> of the \<open>FAILURE\<close>
  record, which is the last call made, and every entry that is not that directory or
  below it exists afterwards if and only if it existed before. The history file is the
  one entry outside the directory that the attempt touches: it exists afterwards,
  holding its former text and the new record, also when it did not exist before.
\<close>

theorem failed_subfolder_frame:
  assumes "create_subfolder U"
    and "mkdir_allowed E (output_dir_of U w archive_path tn)"
    and "fst (tool_outcome E U w archive_path tn) \<noteq> Exit 0"
    and "\<forall>p. \<not> strict_prefix (output_dir_of U w archive_path tn) p \<longrightarrow>
            (p \<in> set (snd (tool_outcome E U w archive_path tn))
               \<longleftrightarrow> p \<in> set (disk_before_tool U w archive_path tn))"
  shows "output_dir_of U w archive_path tn \<notin> set (disk w)
       \<and> output_dir_of U w archive_path tn
           \<in> set (disk (snd (extract_archive E U archive_path all_parts tn w)))
       \<and> last (calls (snd (extract_archive E U archive_path all_parts tn w)))
           = AppendHistory ''FAILURE'' (extraction_name_of U w archive_path tn)
               (path_str (output_dir_of U w archive_path tn))
       \<and> (\<forall>p. \<not> prefix (output_dir_of U w archive_path tn) p \<longrightarrow>
             (p \<in> set (disk (snd (extract_archive E U archive_path all_parts tn w)))
                \<longleftrightarrow> p \<in> set (disk w)))
       \<and> history (snd (extract_archive E U archive_path all_parts tn w))
           = Some (file_text (history w)
                   @ record_line ''FAILURE'' (extraction_name_of U w archive_path tn)
                       (path_str (output_dir_of U w archive_path tn)))"
proof -
  let ?od = "output_dir_of U w archive_path tn"
  let ?w' = "snd (extract_archive E U archive_path all_parts tn w)"
  let ?w1 = "w\<lparr>disk := disk_before_tool U w archive_path tn, calls := calls w @ [Mkdir ?od]\<rparr>"
  note ex = extract_archive_subfolder[OF assms(1,2), of all_parts]
  have t: "fst (tool E (tool_command U archive_path ?od) (disk ?w1)) \<noteq> Exit 0"
    using assms(3) by (simp add: tool_outcome_def)
  note r = run_extraction_failure[OF t, of all_parts "extraction_name_of U w archive_path tn"]
  have dk: "disk ?w' = snd (tool_outcome E U w archive_path tn)"
    using ex r(1) by (simp add: tool_outcome_def)
  have bt: "disk_before_tool U w archive_path tn = disk w @ [?od]"
    using assms(1) by (simp add: disk_before_tool_def)
  have a: "?od \<notin> set (disk w)"
    using unique_dir_result[of "disk w" "path_parent archive_path" tn
              "path_join (path_parent archive_path) tn" 1] assms(1)
    by (simp add: output_dir_of_def choose_output_dir_def)
  have b: "?od \<in> set (disk ?w')"
    using assms(4) dk bt by auto
  have c: "last (calls ?w') = AppendHistory ''FAILURE'' (extraction_name_of U w archive_path tn)
               (path_str ?od)"
    using ex r(3) by simp
  have d: "\<forall>p. \<not> prefix ?od p \<longrightarrow> (p \<in> set (disk ?w') \<longleftrightarrow> p \<in> set (disk w))"
  proof (intro allI impI)
    fix p assume np: "\<not> prefix ?od p"
    then have "\<not> strict_prefix ?od p" and "p \<noteq> ?od" by (auto simp: strict_prefix_def)
    with assms(4) dk bt show "p \<in> set (disk ?w') \<longleftrightarrow> p \<in> set (disk w)" by auto
  qed
  have e: "history ?w' = Some (file_text (history w)
                   @ record_line ''FAILURE'' (extraction_name_of U w archive_path tn)
                       (path_str ?od))"
    using ex r(2) by simp
  from a b c d e show ?thesis by blast
qed


text \<open>
  A tool that leaves a partial file in the directory and fails.
\<close>

theorem failed_subfolder_frame_witness:
  "create_subfolder (example_unpacker True True)
   \<and> fst (tool_outcome (example_env (Exit 2) [[''d'', ''T'', ''part.bin'']] [])
            (example_unpacker True True)
            (example_world [[''d''], [''d'', ''a.rar'']]) [''d'', ''a.rar''] ''T'') \<noteq> Exit 0
   \<and> [''d'', ''T''] \<in> set (disk (snd (extract_archive
          (example_env (Exit 2) [[''d'', ''T'', ''part.bin'']] [])
          (example_unpacker True True) [''d'', ''a.rar''] [[''d'', ''a.rar'']] ''T''
          (example_world [[''d''], [''d'', ''a.rar'']]))))
   \<and> ([''d'', ''a.rar''] \<in> set (disk (snd (extract_archive
          (example_env (Exit 2) [[''d'', ''T'', ''part.bin'']] [])
          (example_unpacker True True) [''d'', ''a.rar''] [[''d'', ''a.rar'']] ''T''
          (example_world [[''d''], [''d'', ''a.rar'']]))))
        \<longleftrightarrow> [''d'', ''a.rar''] \<in> set (disk (example_world [[''d''], [''d'', ''a.rar'']])))"
proof -
  let ?E = "example_env (Exit 2) [[''d'', ''T'', ''part.bin'']] []"
  let ?U = "example_unpacker True True"
  let ?w = "example_world [[''d''], [''d'', ''a.rar'']]"
  have od: "output_dir_of ?U ?w [''d'', ''a.rar''] ''T'' = [''d'', ''T'']" by code_simp
  have h1: "create_subfolder ?U" by (simp add: example_unpacker_def)
  have h2: "mkdir_allowed ?E (output_dir_of ?U ?w [''d'', ''a.rar''] ''T'')"
    by (simp add: example_env_def)
  have h3: "fst (tool_outcome ?E ?U ?w [''d'', ''a.rar''] ''T'') \<noteq> Exit 0"
    by (simp add: tool_outcome_def example_env_def)
  have h4: "\<forall>p. \<not> strict_prefix (output_dir_of ?U ?w [''d'', ''a.rar''] ''T'') p \<longrightarrow>
            (p \<in> set (snd (tool_outcome ?E ?U ?w [''d'', ''a.rar''] ''T''))
               \<longleftrightarrow> p \<in> set (disk_before_tool ?U ?w [''d'', ''a.rar''] ''T''))"
    by (auto simp: od tool_outcome_def example_env_def)
  have np: "\<not> prefix (output_dir_of ?U ?w [''d'', ''a.rar''] ''T'') [''d'', ''a.rar'']"
    by (simp add: od)
  note t = failed_subfolder_frame[OF h1 h2 h3 h4, of "[[''d'', ''a.rar'']]"]
  from t od have "[''d'', ''T''] \<in> set (disk (snd (extract_archive ?E ?U [''d'', ''a.rar'']
            [[''d'', ''a.rar'']] ''T'' ?w)))"
    by simp
  moreover from t np have "[''d'', ''a.rar''] \<in> set (disk (snd (extract_archive ?E ?U
            [''d'', ''a.rar''] [[''d'', ''a.rar'']] ''T'' ?w)))
        \<longleftrightarrow> [''d'', ''a.rar''] \<in> set (disk ?w)"
    by blast
  ultimately show ?thesis using h1 h3 by blast
qed

text \<open>
  C10 as stated lets the failed attempt create nothing outside the new directory,
  but the first record ever written creates the history file.
\<close>

theorem failed_attempt_creates_history_counterexample:
  "create_subfolder (example_unpacker True True)
   \<and> fst (tool_outcome (example_env (Exit 2) [] []) (example_unpacker True True)
            (example_world [[''d''], [''d'', ''a.rar'']]) [''d'', ''a.rar''] ''T'') \<noteq> Exit 0
   \<and> history (example_world [[''d''], [''d'', ''a.rar'']]) = None
   \<and> history (snd (extract_archive (example_env (Exit 2) [] []) (example_unpacker True True)
          [''d'', ''a.rar''] [[''d'', ''a.rar'']] ''T''
          (example_world [[''d''], [''d'', ''a.rar'']])))
       = Some (record_line ''FAILURE'' ''T'' ''/d/T'')"
  by code_simp













section \<open>The completion poller\<close>

lemma unpack_count_append [simp]:
  "unpack_count h (a @ b) = unpack_count h a + unpack_count h b"
  by (simp add: unpack_count_def)

lemma unpack_count_Nil [simp]: "unpack_count h [] = 0"
  by (simp add: unpack_count_def)

lemma unpack_count_dispatch [simp]:
  "unpack_count h (dispatch_events M t) = (if hash t = h then 1 else 0)"
  by (simp add: unpack_count_def dispatch_events_def)

lemma unpack_count_blocks:
  "unpack_count h (concat (map (dispatch_events M) xs)) = length (filter (\<lambda>t. hash t = h) xs)"
  by (induction xs) auto

lemma distinct_hash_count:
  "distinct (map hash xs) \<Longrightarrow> length (filter (\<lambda>t. hash t = h) xs) \<le> 1"
proof (induction xs)
  case Nil
  show ?case by simp
next
  case (Cons x xs)
  then have ih: "length (filter (\<lambda>t. hash t = h) xs) \<le> 1" by simp
  show ?case
  proof (cases "hash x = h")
    case True
    with Cons.prems have "h \<notin> hash ` set xs" by auto
    then have "filter (\<lambda>t. hash t = h) xs = []"
      by (auto simp: filter_empty_conv)
    with True show ?thesis by simp
  next
    case False
    with ih show ?thesis by simp
  qed
qed

lemma count_pos_in: "0 < length (filter (\<lambda>t. hash t = h) xs) \<Longrightarrow> h \<in> hash ` set xs"
  by (induction xs) (auto split: if_splits)

lemma marks_ok_mono: "marks_ok S evs \<Longrightarrow> S \<subseteq> T \<Longrightarrow> marks_ok T evs"
proof (induction evs arbitrary: S T)
  case Nil
  show ?case by simp
next
  case (Cons e evs)
  show ?case
  proof (cases e)
    case (MarkedProcessed h)
    with Cons.prems have "marks_ok (insert h S) evs" "insert h S \<subseteq> insert h T" by auto
    then have "marks_ok (insert h T) evs" by (rule Cons.IH)
    with MarkedProcessed show ?thesis by simp
  next
    case (UnpackCalled h p)
    with Cons.prems have "h \<in> T" "marks_ok S evs" by auto
    with Cons.IH[OF _ Cons.prems(2)] UnpackCalled show ?thesis by simp
  next
    case Polled
    with Cons.prems Cons.IH[of S T] show ?thesis by simp
  next
    case (PauseRequested h)
    with Cons.prems Cons.IH[of S T] show ?thesis by simp
  next
    case (PauseFailed h)
    with Cons.prems Cons.IH[of S T] show ?thesis by simp
  next
    case (Waited n)
    with Cons.prems Cons.IH[of S T] show ?thesis by simp
  next
    case Stopped
    with Cons.prems Cons.IH[of S T] show ?thesis by simp
  qed
qed

lemma marks_ok_append:
  "marks_ok S a \<Longrightarrow> (\<And>T. S \<subseteq> T \<Longrightarrow> marks_ok T b) \<Longrightarrow> marks_ok S (a @ b)"
proof (induction a arbitrary: S)
  case Nil
  then show ?case by simp
next
  case (Cons e evs)
  show ?case
  proof (cases e)
    case (MarkedProcessed h)
    with Cons.prems(1) have "marks_ok (insert h S) evs" by simp
    moreover have "\<And>T. insert h S \<subseteq> T \<Longrightarrow> marks_ok T b" using Cons.prems(2) by simp
    ultimately have "marks_ok (insert h S) (evs @ b)" by (rule Cons.IH)
    with MarkedProcessed show ?thesis by simp
  next
    case (UnpackCalled h p)
    with Cons.prems(1) have "h \<in> S" "marks_ok S evs" by auto
    with Cons.IH[OF _ Cons.prems(2)] UnpackCalled show ?thesis by simp
  next
    case Polled
    with Cons.prems(1) Cons.IH[OF _ Cons.prems(2)] show ?thesis by simp
  next
    case (PauseRequested h)
    with Cons.prems(1) Cons.IH[OF _ Cons.prems(2)] show ?thesis by simp
  next
    case (PauseFailed h)
    with Cons.prems(1) Cons.IH[OF _ Cons.prems(2)] show ?thesis by simp
  next
    case (Waited n)
    with Cons.prems(1) Cons.IH[OF _ Cons.prems(2)] show ?thesis by simp
  next
    case Stopped
    with Cons.prems(1) Cons.IH[OF _ Cons.prems(2)] show ?thesis by simp
  qed
qed

lemma marks_ok_dispatch: "marks_ok T (dispatch_events M t)"
  by (simp add: dispatch_events_def)

lemma marks_ok_blocks: "marks_ok T (concat (map (dispatch_events M) xs))"
proof (induction xs arbitrary: T)
  case Nil
  show ?case by simp
next
  case (Cons x xs)
  have "marks_ok T (dispatch_events M x @ concat (map (dispatch_events M) xs))"
    by (rule marks_ok_append[OF marks_ok_dispatch]) (rule Cons.IH)
  then show ?case by simp
qed


lemma process_one_effect:
  "trace (snd (process_one M len i t s)) = trace s @ dispatch_events M t"
  "processed_torrents (snd (process_one M len i t s)) = insert (hash t) (processed_torrents s)"
  "\<exists>w. fst (process_one M len i t s) = fst (unpack M (content_path t) w)"
proof -
  let ?w1 = "gui_put (Status (''Processing ('' @ str_nat i @ ''/'' @ str_nat len @ ''): ''
                                 @ name t)) (the_world s)"
  obtain r w2 where u: "unpack M (content_path t) ?w1 = (r, w2)"
    by (cases "unpack M (content_path t) ?w1") auto
  then have p: "process_one M len i t s
      = (r, s\<lparr>processed_torrents := insert (hash t) (processed_torrents s),
                the_world := w2,
                trace := trace s @ dispatch_events M t\<rparr>)"
    by (simp add: process_one_def dispatch_events_def Let_def)
  show "trace (snd (process_one M len i t s)) = trace s @ dispatch_events M t"
    by (simp add: p)
  show "processed_torrents (snd (process_one M len i t s)) = insert (hash t) (processed_torrents s)"
    by (simp add: p)
  have "fst (process_one M len i t s) = r" by (simp add: p)
  moreover have "fst (unpack M (content_path t) ?w1) = r" using u by simp
  ultimately have "fst (process_one M len i t s) = fst (unpack M (content_path t) ?w1)"
    by simp
  then show "\<exists>w. fst (process_one M len i t s) = fst (unpack M (content_path t) w)"
    by blast
qed

lemma process_torrents_effect:
  "\<exists>k\<le>length ts.
      trace (snd (process_torrents M len i ts s))
        = trace s @ concat (map (dispatch_events M) (take k ts))
    \<and> processed_torrents (snd (process_torrents M len i ts s))
        = processed_torrents s \<union> hash ` set (take k ts)
    \<and> (fst (process_torrents M len i ts s) = None \<longrightarrow> k = length ts)
    \<and> (\<forall>e. fst (process_torrents M len i ts s) = Some e \<longrightarrow>
          0 < k \<and> (\<exists>w. fst (unpack M (content_path (ts ! (k - 1))) w) = Some e))"
proof (induction ts arbitrary: s i)
  case Nil
  show ?case by simp
next
  case (Cons t ts)
  obtain r s1 where po: "process_one M len i t s = (r, s1)"
    by (cases "process_one M len i t s") auto
  from process_one_effect[of M len i t s] po
  have tr1: "trace s1 = trace s @ dispatch_events M t"
    and pr1: "processed_torrents s1 = insert (hash t) (processed_torrents s)"
    and un1: "\<exists>w. r = fst (unpack M (content_path t) w)"
    by auto
  show ?case
  proof (cases r)
    case (Some e)
    then have p: "process_torrents M len i (t # ts) s = (Some e, s1)"
      using po by simp
    have a: "trace s1 = trace s @ concat (map (dispatch_events M) (take 1 (t # ts)))"
      using tr1 by simp
    have b: "processed_torrents s1 = processed_torrents s \<union> hash ` set (take 1 (t # ts))"
      using pr1 by simp
    have c: "\<exists>w. fst (unpack M (content_path ((t # ts) ! (1 - 1))) w) = Some e"
      using un1 Some by auto
    have "(1::nat) \<le> length (t # ts)" by simp
    have "trace (snd (process_torrents M len i (t # ts) s))
            = trace s @ concat (map (dispatch_events M) (take 1 (t # ts)))
        \<and> processed_torrents (snd (process_torrents M len i (t # ts) s))
            = processed_torrents s \<union> hash ` set (take 1 (t # ts))
        \<and> (fst (process_torrents M len i (t # ts) s) = None \<longrightarrow> 1 = length (t # ts))
        \<and> (\<forall>e. fst (process_torrents M len i (t # ts) s) = Some e \<longrightarrow>
              0 < (1::nat) \<and> (\<exists>w. fst (unpack M (content_path ((t # ts) ! (1 - 1))) w) = Some e))"
      unfolding p using a b c by simp
    moreover have "(1::nat) \<le> length (t # ts)" by simp
    ultimately have "1 \<le> length (t # ts)
        \<and> trace (snd (process_torrents M len i (t # ts) s))
            = trace s @ concat (map (dispatch_events M) (take 1 (t # ts)))
        \<and> processed_torrents (snd (process_torrents M len i (t # ts) s))
            = processed_torrents s \<union> hash ` set (take 1 (t # ts))
        \<and> (fst (process_torrents M len i (t # ts) s) = None \<longrightarrow> 1 = length (t # ts))
        \<and> (\<forall>e. fst (process_torrents M len i (t # ts) s) = Some e \<longrightarrow>
              0 < (1::nat) \<and> (\<exists>w. fst (unpack M (content_path ((t # ts) ! (1 - 1))) w) = Some e))"
      by (rule conjI[rotated])
    then show ?thesis by (rule exI[of _ 1])
  next
    case None
    then have p: "process_torrents M len i (t # ts) s = process_torrents M len (Suc i) ts s1"
      using po by simp
    from Cons.IH[of "Suc i" s1] obtain k where kk: "k \<le> length ts
      \<and> trace (snd (process_torrents M len (Suc i) ts s1))
         = trace s1 @ concat (map (dispatch_events M) (take k ts))
      \<and> processed_torrents (snd (process_torrents M len (Suc i) ts s1))
         = processed_torrents s1 \<union> hash ` set (take k ts)
      \<and> (fst (process_torrents M len (Suc i) ts s1) = None \<longrightarrow> k = length ts)
      \<and> (\<forall>e. fst (process_torrents M len (Suc i) ts s1) = Some e \<longrightarrow>
          0 < k \<and> (\<exists>w. fst (unpack M (content_path (ts ! (k - 1))) w) = Some e))"
      by (rule exE)
    note k = conjunct1[OF kk] conjunct1[OF conjunct2[OF kk]]
      conjunct1[OF conjunct2[OF conjunct2[OF kk]]]
      conjunct1[OF conjunct2[OF conjunct2[OF conjunct2[OF kk]]]]
      conjunct2[OF conjunct2[OF conjunct2[OF conjunct2[OF kk]]]]
    have a: "trace (snd (process_torrents M len i (t # ts) s))
         = trace s @ concat (map (dispatch_events M) (take (Suc k) (t # ts)))"
      using p k(2) tr1 by simp
    have b: "processed_torrents (snd (process_torrents M len i (t # ts) s))
         = processed_torrents s \<union> hash ` set (take (Suc k) (t # ts))"
      using p k(3) pr1 by auto
    have c: "fst (process_torrents M len i (t # ts) s) = None \<longrightarrow> Suc k = length (t # ts)"
      using p k(4) by simp
    have d: "\<forall>e. fst (process_torrents M len i (t # ts) s) = Some e \<longrightarrow>
          0 < Suc k \<and> (\<exists>w. fst (unpack M (content_path ((t # ts) ! (Suc k - 1))) w) = Some e)"
    proof (intro allI impI)
      fix e assume "fst (process_torrents M len i (t # ts) s) = Some e"
      with p k(5) have "0 < k" "\<exists>w. fst (unpack M (content_path (ts ! (k - 1))) w) = Some e"
        by auto
      then show "0 < Suc k \<and> (\<exists>w. fst (unpack M (content_path ((t # ts) ! (Suc k - 1))) w) = Some e)"
        by (cases k) auto
    qed
    from k(1) have "Suc k \<le> length (t # ts)" by simp
    with a b c d have "Suc k \<le> length (t # ts)
        \<and> trace (snd (process_torrents M len i (t # ts) s))
            = trace s @ concat (map (dispatch_events M) (take (Suc k) (t # ts)))
        \<and> processed_torrents (snd (process_torrents M len i (t # ts) s))
            = processed_torrents s \<union> hash ` set (take (Suc k) (t # ts))
        \<and> (fst (process_torrents M len i (t # ts) s) = None \<longrightarrow> Suc k = length (t # ts))
        \<and> (\<forall>e. fst (process_torrents M len i (t # ts) s) = Some e \<longrightarrow>
              0 < Suc k \<and> (\<exists>w. fst (unpack M (content_path ((t # ts) ! (Suc k - 1))) w) = Some e))"
      by (intro conjI)
    then show ?thesis by (rule exI[of _ "Suc k"])
  qed
qed


lemma poll_tick_effect:
  "\<exists>k. trace (snd (poll_tick M mp rep s))
          = trace s @ concat (map (dispatch_events M) (take k (selection M mp rep s)))
      \<and> processed_torrents (snd (poll_tick M mp rep s))
          = processed_torrents s \<union> hash ` set (take k (selection M mp rep s))"
proof (cases rep)
  case None
  then have "trace (snd (poll_tick M mp rep s))
          = trace s @ concat (map (dispatch_events M) (take 0 (selection M mp rep s)))
      \<and> processed_torrents (snd (poll_tick M mp rep s))
          = processed_torrents s \<union> hash ` set (take 0 (selection M mp rep s))"
    by (simp add: poll_tick_def)
  then show ?thesis by (rule exI[of _ 0])
next
  case (Some torrents)
  let ?todo = "torrents_to_process M mp (processed_torrents s) torrents"
  have sel: "selection M mp rep s = ?todo" using Some by (simp add: selection_def)
  show ?thesis
  proof (cases "?todo = []")
    case True
    then have "trace (snd (poll_tick M mp rep s))
          = trace s @ concat (map (dispatch_events M) (take 0 (selection M mp rep s)))
      \<and> processed_torrents (snd (poll_tick M mp rep s))
          = processed_torrents s \<union> hash ` set (take 0 (selection M mp rep s))"
      using Some by (simp add: poll_tick_def)
    then show ?thesis by (rule exI[of _ 0])
  next
    case False
    obtain r s1 where pt: "process_torrents M (length ?todo) 1 ?todo s = (r, s1)"
      by (cases "process_torrents M (length ?todo) 1 ?todo s") auto
    from process_torrents_effect[of ?todo M "length ?todo" 1 s] obtain k where kk:
      "k \<le> length ?todo
       \<and> trace (snd (process_torrents M (length ?todo) 1 ?todo s))
           = trace s @ concat (map (dispatch_events M) (take k ?todo))
       \<and> processed_torrents (snd (process_torrents M (length ?todo) 1 ?todo s))
           = processed_torrents s \<union> hash ` set (take k ?todo)
       \<and> (fst (process_torrents M (length ?todo) 1 ?todo s) = None \<longrightarrow> k = length ?todo)
       \<and> (\<forall>e. fst (process_torrents M (length ?todo) 1 ?todo s) = Some e \<longrightarrow>
            0 < k \<and> (\<exists>w. fst (unpack M (content_path (?todo ! (k - 1))) w) = Some e))"
      by (rule exE)
    have t1: "trace s1 = trace s @ concat (map (dispatch_events M) (take k ?todo))"
      using conjunct1[OF conjunct2[OF kk]] pt by simp
    have p1: "processed_torrents s1 = processed_torrents s \<union> hash ` set (take k ?todo)"
      using conjunct1[OF conjunct2[OF conjunct2[OF kk]]] pt by simp
    have "trace (snd (poll_tick M mp rep s)) = trace s1
        \<and> processed_torrents (snd (poll_tick M mp rep s)) = processed_torrents s1"
      using Some False pt by (cases r) (simp_all add: poll_tick_def Let_def)
    with t1 p1 sel have "trace (snd (poll_tick M mp rep s))
          = trace s @ concat (map (dispatch_events M) (take k (selection M mp rep s)))
      \<and> processed_torrents (snd (poll_tick M mp rep s))
          = processed_torrents s \<union> hash ` set (take k (selection M mp rep s))"
      by simp
    then show ?thesis by (rule exI[of _ k])
  qed
qed

lemma selection_props:
  assumes "\<forall>ts. rep = Some ts \<longrightarrow> distinct (map hash ts)"
  shows "distinct (map hash (take k (selection M mp rep s)))"
    and "\<forall>t\<in>set (take k (selection M mp rep s)). hash t \<notin> processed_torrents s"
proof -
  have d: "distinct (map hash (selection M mp rep s))"
    using assms by (cases rep) (simp_all add: selection_def torrents_to_process_def distinct_map_filter)
  have "map hash (take k (selection M mp rep s)) = take k (map hash (selection M mp rep s))"
    by (simp add: take_map)
  with d show "distinct (map hash (take k (selection M mp rep s)))" by simp
  have "\<forall>t\<in>set (selection M mp rep s). hash t \<notin> processed_torrents s"
    by (cases rep) (simp_all add: selection_def torrents_to_process_def selected_def)
  then show "\<forall>t\<in>set (take k (selection M mp rep s)). hash t \<notin> processed_torrents s"
    by (meson in_set_takeD)
qed

lemma inv_plain:
  assumes "dispatch_inv s" and "trace s' = trace s @ [e]"
    and "e = Polled \<or> e = Stopped \<or> (\<exists>n. e = Waited n)"
    and "processed_torrents s' = processed_torrents s"
  shows "dispatch_inv s'"
proof -
  from assms(3) have c: "\<And>h. unpack_count h [e] = 0" by (auto simp: unpack_count_def)
  from assms(3) have m: "\<And>T. marks_ok T [e]" by auto
  from assms(1) have "marks_ok {} (trace s)" by (simp add: dispatch_inv_def)
  then have "marks_ok {} (trace s @ [e])" by (rule marks_ok_append) (rule m)
  with assms(1,2,4) c show ?thesis by (simp add: dispatch_inv_def)
qed

lemma inv_blocks:
  assumes "dispatch_inv s" and "trace s' = trace s @ concat (map (dispatch_events M) xs)"
    and "processed_torrents s' = processed_torrents s \<union> hash ` set xs"
    and "distinct (map hash xs)" and "\<forall>t\<in>set xs. hash t \<notin> processed_torrents s"
  shows "dispatch_inv s'"
proof -
  from assms(1) have "marks_ok {} (trace s)" by (simp add: dispatch_inv_def)
  then have m: "marks_ok {} (trace s')"
    unfolding assms(2) by (rule marks_ok_append) (rule marks_ok_blocks)
  have c: "unpack_count h (trace s') \<le> 1
         \<and> (0 < unpack_count h (trace s') \<longrightarrow> h \<in> processed_torrents s')" for h
  proof (cases "h \<in> hash ` set xs")
    case True
    with assms(5) have "h \<notin> processed_torrents s" by auto
    with assms(1) have "unpack_count h (trace s) = 0" by (auto simp: dispatch_inv_def)
    with distinct_hash_count[OF assms(4), of h] True assms(2,3) show ?thesis
      by (simp add: unpack_count_blocks)
  next
    case False
    then have "length (filter (\<lambda>t. hash t = h) xs) = 0"
      using count_pos_in[of h xs] by auto
    with assms(1,2,3) show ?thesis
      by (simp add: unpack_count_blocks dispatch_inv_def)
  qed
  from m c show ?thesis by (simp add: dispatch_inv_def)
qed

lemma poll_tick_inv:
  assumes "dispatch_inv s" and "\<forall>ts. rep = Some ts \<longrightarrow> distinct (map hash ts)"
  shows "dispatch_inv (snd (poll_tick M mp rep s))"
proof -
  from poll_tick_effect[of M mp rep s] obtain k where
    "trace (snd (poll_tick M mp rep s))
          = trace s @ concat (map (dispatch_events M) (take k (selection M mp rep s)))
      \<and> processed_torrents (snd (poll_tick M mp rep s))
          = processed_torrents s \<union> hash ` set (take k (selection M mp rep s))"
    by (rule exE)
  then show ?thesis
    using inv_blocks[OF assms(1) _ _ selection_props[OF assms(2), of k M mp s]] by blast
qed

lemma monitor_loop_inv:
  assumes "dispatch_inv s"
    and "\<forall>i\<in>set inputs. \<forall>ts. reply i = Some ts \<longrightarrow> distinct (map hash ts)"
  shows "dispatch_inv (monitor_loop M mp inputs s)"
  using assms
proof (induction inputs arbitrary: s)
  case Nil
  then show ?case by simp
next
  case (Cons i rest)
  show ?case
  proof (cases "stop_set i")
    case True
    have "dispatch_inv (s\<lparr>trace := trace s @ [Stopped]\<rparr>)"
      by (rule inv_plain[OF Cons.prems(1), of _ Stopped]) simp_all
    with True show ?thesis by simp
  next
    case False
    let ?s0 = "s\<lparr>trace := trace s @ [Polled]\<rparr>"
    have i0: "dispatch_inv ?s0"
      by (rule inv_plain[OF Cons.prems(1), of _ Polled]) simp_all
    obtain r s1 where pt: "poll_tick M mp (reply i) ?s0 = (r, s1)"
      by (cases "poll_tick M mp (reply i) ?s0") auto
    from Cons.prems(2) have d: "\<forall>ts. reply i = Some ts \<longrightarrow> distinct (map hash ts)" by simp
    from poll_tick_inv[OF i0 d, of M mp] pt have i1: "dispatch_inv s1" by simp
    from Cons.prems(2) have dr: "\<forall>i\<in>set rest. \<forall>ts. reply i = Some ts \<longrightarrow> distinct (map hash ts)"
      by simp
    show ?thesis
    proof (cases r)
      case None
      let ?s2 = "s1\<lparr>trace := trace s1 @ [Waited 15]\<rparr>"
      have "dispatch_inv ?s2"
        by (rule inv_plain[OF i1, of _ "Waited 15"]) simp_all
      from Cons.IH[OF this dr] None pt False show ?thesis by simp
    next
      case (Some e)
      let ?s2 = "s1\<lparr>the_world := gui_put (Status ''Error during polling. Retrying...'')
                                      (the_world s1),
                      trace := trace s1 @ [Waited 60]\<rparr>"
      have "dispatch_inv ?s2"
        by (rule inv_plain[OF i1, of _ "Waited 60"]) simp_all
      from Cons.IH[OF this dr] Some pt False show ?thesis by simp
    qed
  qed
qed


lemma poll_tick_trace: "\<exists>new. trace (snd (poll_tick M mp rep s)) = trace s @ new"
  using poll_tick_effect[of M mp rep s] by blast

lemma monitor_loop_trace: "\<exists>new. trace (monitor_loop M mp inputs s) = trace s @ new"
proof (induction inputs arbitrary: s)
  case Nil
  show ?case by simp
next
  case (Cons i rest)
  show ?case
  proof (cases "stop_set i")
    case True
    then show ?thesis by simp
  next
    case False
    let ?s0 = "s\<lparr>trace := trace s @ [Polled]\<rparr>"
    obtain r s1 where pt: "poll_tick M mp (reply i) ?s0 = (r, s1)"
      by (cases "poll_tick M mp (reply i) ?s0") auto
    from poll_tick_trace[of M mp "reply i" ?s0] pt obtain n1 where
      n1: "trace s1 = trace s @ [Polled] @ n1" by auto
    show ?thesis
    proof (cases r)
      case None
      let ?s2 = "s1\<lparr>trace := trace s1 @ [Waited 15]\<rparr>"
      from Cons.IH[of ?s2] obtain n2 where "trace (monitor_loop M mp rest ?s2) = trace ?s2 @ n2"
        by blast
      with n1 have "trace (monitor_loop M mp rest ?s2) = trace s @ ([Polled] @ n1 @ [Waited 15] @ n2)"
        by simp
      moreover have "monitor_loop M mp (i # rest) s = monitor_loop M mp rest ?s2"
        using None pt False by simp
      ultimately show ?thesis by metis
    next
      case (Some e)
      let ?s2 = "s1\<lparr>the_world := gui_put (Status ''Error during polling. Retrying...'')
                                      (the_world s1),
                      trace := trace s1 @ [Waited 60]\<rparr>"
      from Cons.IH[of ?s2] obtain n2 where "trace (monitor_loop M mp rest ?s2) = trace ?s2 @ n2"
        by blast
      with n1 have "trace (monitor_loop M mp rest ?s2) = trace s @ ([Polled] @ n1 @ [Waited 60] @ n2)"
        by simp
      moreover have "monitor_loop M mp (i # rest) s = monitor_loop M mp rest ?s2"
        using Some pt False by simp
      ultimately show ?thesis by metis
    qed
  qed
qed

lemma poll_tick_nonempty:
  assumes "rep = Some ts" and "torrents_to_process M mp (processed_torrents s) ts \<noteq> []"
  shows "trace (snd (poll_tick M mp rep s))
           = trace (snd (process_torrents M
                (length (torrents_to_process M mp (processed_torrents s) ts)) 1
                (torrents_to_process M mp (processed_torrents s) ts) s))"
proof -
  let ?todo = "torrents_to_process M mp (processed_torrents s) ts"
  obtain r s1 where pt: "process_torrents M (length ?todo) 1 ?todo s = (r, s1)"
    by (cases "process_torrents M (length ?todo) 1 ?todo s") auto
  then show ?thesis using assms by (cases r) (simp_all add: poll_tick_def Let_def)
qed

lemma monitor_loop_append:
  "\<forall>i\<in>set pre. \<not> stop_set i \<Longrightarrow>
     monitor_loop M mp (pre @ rest) s = monitor_loop M mp rest (monitor_loop M mp pre s)"
proof (induction pre arbitrary: s)
  case Nil
  show ?case by simp
next
  case (Cons i pre)
  let ?s0 = "s\<lparr>trace := trace s @ [Polled]\<rparr>"
  obtain r s1 where pt: "poll_tick M mp (reply i) ?s0 = (r, s1)"
    by (cases "poll_tick M mp (reply i) ?s0") auto
  from Cons.prems have ns: "\<not> stop_set i" and np: "\<forall>i\<in>set pre. \<not> stop_set i" by simp_all
  show ?case using ns pt Cons.IH[OF np] by (cases r) simp_all
qed

lemma monitor_loop_running:
  "\<forall>i\<in>set inputs. \<not> stop_set i \<Longrightarrow>
     \<exists>new. trace (monitor_loop M mp inputs s) = trace s @ new
        \<and> Stopped \<notin> set new \<and> count_list new Polled = length inputs"
proof (induction inputs arbitrary: s)
  case Nil
  show ?case by simp
next
  case (Cons i rest)
  let ?s0 = "s\<lparr>trace := trace s @ [Polled]\<rparr>"
  obtain r s1 where pt: "poll_tick M mp (reply i) ?s0 = (r, s1)"
    by (cases "poll_tick M mp (reply i) ?s0") auto
  from Cons.prems have ns: "\<not> stop_set i" and nr: "\<forall>i\<in>set rest. \<not> stop_set i" by simp_all
  from poll_tick_effect[of M mp "reply i" ?s0] pt obtain k where
    t1: "trace s1 = trace s @ [Polled] @ concat (map (dispatch_events M) (take k (selection M mp (reply i) ?s0)))"
    by auto
  let ?blocks = "concat (map (dispatch_events M) (take k (selection M mp (reply i) ?s0)))"
  have b1: "Stopped \<notin> set ?blocks" by (auto simp: dispatch_events_def)
  have b2: "count_list ?blocks Polled = 0"
    by (simp add: count_list_0_iff) (auto simp: dispatch_events_def)
  have "\<exists>s2 n. monitor_loop M mp (i # rest) s = monitor_loop M mp rest s2
           \<and> trace s2 = trace s1 @ [Waited n]"
  proof (cases r)
    case None
    then have "monitor_loop M mp (i # rest) s
                 = monitor_loop M mp rest (s1\<lparr>trace := trace s1 @ [Waited 15]\<rparr>)"
      using ns pt by simp
    moreover have "trace (s1\<lparr>trace := trace s1 @ [Waited 15]\<rparr>) = trace s1 @ [Waited 15]"
      by simp
    ultimately show ?thesis by blast
  next
    case (Some e)
    then have "monitor_loop M mp (i # rest) s
                 = monitor_loop M mp rest
                       (s1\<lparr>the_world := gui_put (Status ''Error during polling. Retrying...'')
                                          (the_world s1),
                           trace := trace s1 @ [Waited 60]\<rparr>)"
      using ns pt by simp
    moreover have "trace (s1\<lparr>the_world := gui_put (Status ''Error during polling. Retrying...'')
                                          (the_world s1),
                           trace := trace s1 @ [Waited 60]\<rparr>) = trace s1 @ [Waited 60]"
      by simp
    ultimately show ?thesis by blast
  qed
  then obtain s2 n where s2: "monitor_loop M mp (i # rest) s = monitor_loop M mp rest s2"
    "trace s2 = trace s1 @ [Waited n]" by blast
  from Cons.IH[OF nr, of s2] obtain new where new:
    "trace (monitor_loop M mp rest s2) = trace s2 @ new" "Stopped \<notin> set new"
    "count_list new Polled = length rest" by blast
  let ?all = "[Polled] @ ?blocks @ [Waited n] @ new"
  have "trace (monitor_loop M mp (i # rest) s) = trace s @ ?all"
    using s2 new(1) t1 by simp
  moreover have "Stopped \<notin> set ?all" using b1 new(2) by simp
  moreover have "count_list ?all Polled = length (i # rest)" using b2 new(3) by simp
  ultimately show ?case by blast
qed

text \<open>
  C9. When an exception leaves the \<open>try\<close> of a tick, the thread waits 60 and nothing
  else; if the stop event is not set at the next turn it polls again; and as long as
  the stop event is not set the loop goes on, one poll per turn, whatever the ticks
  raise: the exception never ends it.
\<close>

theorem backoff_on_poll_failure:
  assumes "\<forall>i\<in>set pre. \<not> stop_set i" and "\<not> stop_set i"
    and "poll_tick M mp (reply i)
           ((monitor_loop M mp pre s)\<lparr>trace := trace (monitor_loop M mp pre s) @ [Polled]\<rparr>)
         = (Some e, s')"
  shows "trace (monitor_loop M mp (pre @ [i]) s) = trace s' @ [Waited 60]
       \<and> (\<forall>j rest. \<not> stop_set j \<longrightarrow>
            (\<exists>evs. trace (monitor_loop M mp (pre @ i # j # rest) s)
                      = trace s' @ [Waited 60, Polled] @ evs))
       \<and> (\<forall>rest. (\<forall>j\<in>set rest. \<not> stop_set j) \<longrightarrow>
            (\<exists>new. trace (monitor_loop M mp (pre @ i # rest) s) = trace s @ new
                \<and> Stopped \<notin> set new
                \<and> count_list new Polled = length pre + 1 + length rest))"
proof -
  let ?sp = "monitor_loop M mp pre s"
  let ?s2 = "s'\<lparr>the_world := gui_put (Status ''Error during polling. Retrying...'')
                                  (the_world s'),
                trace := trace s' @ [Waited 60]\<rparr>"
  have step: "monitor_loop M mp (i # rest) ?sp = monitor_loop M mp rest ?s2" for rest
    using assms(2,3) by simp
  have a: "trace (monitor_loop M mp (pre @ [i]) s) = trace s' @ [Waited 60]"
    using monitor_loop_append[OF assms(1), of M mp "[i]" s] step[of "[]"] by simp
  have b: "\<exists>evs. trace (monitor_loop M mp (pre @ i # j # rest) s)
                      = trace s' @ [Waited 60, Polled] @ evs"
    if nj: "\<not> stop_set j" for j rest
  proof -
    let ?s3 = "?s2\<lparr>trace := trace ?s2 @ [Polled]\<rparr>"
    obtain r s4 where pt: "poll_tick M mp (reply j) ?s3 = (r, s4)"
      by (cases "poll_tick M mp (reply j) ?s3") auto
    from poll_tick_trace[of M mp "reply j" ?s3] pt obtain n1 where
      n1: "trace s4 = trace s' @ [Waited 60, Polled] @ n1" by auto
    have "\<exists>s5 n. monitor_loop M mp (j # rest) ?s2 = monitor_loop M mp rest s5
            \<and> trace s5 = trace s4 @ [Waited n]"
    proof (cases r)
      case None
      then have "monitor_loop M mp (j # rest) ?s2
                   = monitor_loop M mp rest (s4\<lparr>trace := trace s4 @ [Waited 15]\<rparr>)"
        using nj pt by simp
      moreover have "trace (s4\<lparr>trace := trace s4 @ [Waited 15]\<rparr>) = trace s4 @ [Waited 15]"
        by simp
      ultimately show ?thesis by blast
    next
      case (Some e')
      then have "monitor_loop M mp (j # rest) ?s2
                   = monitor_loop M mp rest
                       (s4\<lparr>the_world := gui_put (Status ''Error during polling. Retrying...'')
                                          (the_world s4),
                           trace := trace s4 @ [Waited 60]\<rparr>)"
        using nj pt by simp
      moreover have "trace (s4\<lparr>the_world := gui_put (Status ''Error during polling. Retrying...'')
                                          (the_world s4),
                           trace := trace s4 @ [Waited 60]\<rparr>) = trace s4 @ [Waited 60]"
        by simp
      ultimately show ?thesis by blast
    qed
    then obtain s5 n where s5: "monitor_loop M mp (j # rest) ?s2 = monitor_loop M mp rest s5"
      "trace s5 = trace s4 @ [Waited n]" by blast
    from monitor_loop_trace[of M mp rest s5] obtain n2 where
      "trace (monitor_loop M mp rest s5) = trace s5 @ n2" by blast
    with s5 n1 have "trace (monitor_loop M mp (j # rest) ?s2)
        = trace s' @ [Waited 60, Polled] @ (n1 @ [Waited n] @ n2)" by simp
    moreover have "monitor_loop M mp (pre @ i # j # rest) s = monitor_loop M mp (j # rest) ?s2"
      using monitor_loop_append[OF assms(1), of M mp "i # j # rest" s] step[of "j # rest"] by simp
    ultimately show ?thesis by metis
  qed
  have c: "\<exists>new. trace (monitor_loop M mp (pre @ i # rest) s) = trace s @ new
                \<and> Stopped \<notin> set new
                \<and> count_list new Polled = length pre + 1 + length rest"
    if nr: "\<forall>j\<in>set rest. \<not> stop_set j" for rest
  proof -
    from assms(1,2) nr have "\<forall>j\<in>set (pre @ i # rest). \<not> stop_set j" by auto
    from monitor_loop_running[OF this, of M mp s] show ?thesis by simp
  qed
  from a b c show ?thesis by blast
qed

text \<open>
  A first tick whose unpacking raises.
\<close>

theorem backoff_on_poll_failure_witness:
  "\<not> stop_set (example_tick [example_torrent ''A'' [''downloads'', ''A'']])
   \<and> trace (monitor_loop (example_monitor [[''downloads'', ''A'']]) [''downloads'']
        ([] @ [example_tick [example_torrent ''A'' [''downloads'', ''A'']]]) fresh_state)
      = [Polled, MarkedProcessed ''A'', PauseRequested ''A'',
         UnpackCalled ''A'' [''downloads'', ''A'']] @ [Waited 60]"
proof -
  let ?M = "example_monitor [[''downloads'', ''A'']]"
  let ?i = "example_tick [example_torrent ''A'' [''downloads'', ''A'']]"
  let ?s0 = "(monitor_loop ?M [''downloads''] [] fresh_state)
              \<lparr>trace := trace (monitor_loop ?M [''downloads''] [] fresh_state) @ [Polled]\<rparr>"
  have h1: "\<forall>i\<in>set []. \<not> stop_set (i::tick_input)" by simp
  have h2: "\<not> stop_set ?i" by (simp add: example_tick_def)
  have f: "fst (poll_tick ?M [''downloads''] (reply ?i) ?s0)
             = Some (MkdirError [''downloads'', ''A''])"
    by code_simp
  have t: "trace (snd (poll_tick ?M [''downloads''] (reply ?i) ?s0))
             = [Polled, MarkedProcessed ''A'', PauseRequested ''A'',
                UnpackCalled ''A'' [''downloads'', ''A'']]"
    by code_simp
  from f have h3: "poll_tick ?M [''downloads''] (reply ?i) ?s0
         = (Some (MkdirError [''downloads'', ''A'']),
            snd (poll_tick ?M [''downloads''] (reply ?i) ?s0))"
    by (metis prod.collapse)
  from backoff_on_poll_failure[OF h1 h2 h3]
  have "trace (monitor_loop ?M [''downloads''] ([] @ [?i]) fresh_state)
          = trace (snd (poll_tick ?M [''downloads''] (reply ?i) ?s0)) @ [Waited 60]"
    by blast
  with h2 t show ?thesis by simp
qed

text \<open>
  Whatever lies within the root is let through by the filter: containment of the
  paths gives the prefix relation on their strings.
\<close>

lemma path_str_prefix: "prefix a b \<Longrightarrow> prefix (path_str a) (path_str b)"
proof -
  assume "prefix a b"
  then obtain c where b: "b = a @ c" by (auto simp: prefix_def)
  show ?thesis
  proof (cases "a = []")
    case True
    then show ?thesis using b by (cases c) (simp_all add: path_str_def)
  next
    case False
    then show ?thesis using b by (simp add: path_str_def)
  qed
qed

lemma contained_is_selected:
  "spec_selected M monitor_path processed t \<Longrightarrow> selected M monitor_path processed t"
  by (simp add: spec_selected_def selected_def within_root_def path_str_prefix)

text \<open>
  C2. The filter compares the two paths as strings. With the root \<open>/downloads\<close>, a
  completed torrent not yet processed whose content is \<open>/downloads2/Movie\<close> is selected,
  though by containment, which the specification asks for, it is not.
\<close>

theorem sibling_directory_selected:
  "torrents_to_process (example_monitor []) [''downloads''] {}
      [example_torrent ''h1'' [''downloads2'', ''Movie'']]
     = [example_torrent ''h1'' [''downloads2'', ''Movie'']]
   \<and> filter (spec_selected (example_monitor []) [''downloads''] {})
      [example_torrent ''h1'' [''downloads2'', ''Movie'']] = []"
  by (simp add: torrents_to_process_def selected_def spec_selected_def within_root_def
        example_monitor_def example_torrent_def path_str_def)

text \<open>
  When a hash is reached.
\<close>

lemma reachedI:
  assumes "inputs = pre @ i # rest" and "\<forall>j\<in>set pre. \<not> stop_set j" and "\<not> stop_set i"
    and "reply i = Some ts"
    and "torrents_to_process M mp (processed_torrents (monitor_loop M mp pre s)) ts
           = before @ t # after"
    and "hash t = h"
    and "fst (process_torrents M (length (before @ t # after)) 1 before
                 ((monitor_loop M mp pre s)
                    \<lparr>trace := trace (monitor_loop M mp pre s) @ [Polled]\<rparr>)) = None"
  shows "reached M mp inputs s h"
  unfolding reached_def using assms by blast

lemma reachedE:
  assumes "reached M mp inputs s h"
  obtains pre i rest ts before t after where
    "inputs = pre @ i # rest" and "\<forall>j\<in>set pre. \<not> stop_set j" and "\<not> stop_set i"
    and "reply i = Some ts"
    and "torrents_to_process M mp (processed_torrents (monitor_loop M mp pre s)) ts
           = before @ t # after"
    and "hash t = h"
    and "fst (process_torrents M (length (before @ t # after)) 1 before
                 ((monitor_loop M mp pre s)
                    \<lparr>trace := trace (monitor_loop M mp pre s) @ [Polled]\<rparr>)) = None"
  using assms unfolding reached_def by blast

lemma process_torrents_append:
  "process_torrents M len i (xs @ ys) s =
     (case process_torrents M len i xs s of
        (Some e, s') \<Rightarrow> (Some e, s')
      | (None, s') \<Rightarrow> process_torrents M len (i + length xs) ys s')"
proof (induction xs arbitrary: i s)
  case Nil
  show ?case by simp
next
  case (Cons x xs)
  obtain r s1 where po: "process_one M len i x s = (r, s1)"
    by (cases "process_one M len i x s") auto
  show ?case
  proof (cases r)
    case (Some e)
    with po show ?thesis by simp
  next
    case None
    obtain r2 s2 where p2: "process_torrents M len (Suc i) xs s1 = (r2, s2)"
      by (cases "process_torrents M len (Suc i) xs s1") auto
    show ?thesis
      using None po p2 Cons.IH[of "Suc i" s1] by (cases r2) simp_all
  qed
qed

lemma process_torrents_reach:
  "\<exists>k\<le>length ts.
      trace (snd (process_torrents M len i ts s))
        = trace s @ concat (map (dispatch_events M) (take k ts))
    \<and> (\<forall>j<k. fst (process_torrents M len i (take j ts) s) = None)"
proof (induction ts arbitrary: s i)
  case Nil
  show ?case by simp
next
  case (Cons t ts)
  obtain r s1 where po: "process_one M len i t s = (r, s1)"
    by (cases "process_one M len i t s") auto
  from process_one_effect(1)[of M len i t s] po
  have tr1: "trace s1 = trace s @ dispatch_events M t" by simp
  show ?case
  proof (cases r)
    case (Some e)
    then have p: "process_torrents M len i (t # ts) s = (Some e, s1)"
      using po by simp
    have "1 \<le> length (t # ts)
        \<and> trace (snd (process_torrents M len i (t # ts) s))
            = trace s @ concat (map (dispatch_events M) (take 1 (t # ts)))
        \<and> (\<forall>j<1. fst (process_torrents M len i (take j (t # ts)) s) = None)"
      using p tr1 by simp
    then show ?thesis by (rule exI[of _ 1])
  next
    case None
    then have p: "\<And>us. process_torrents M len i (t # us) s = process_torrents M len (Suc i) us s1"
      using po by simp
    from Cons.IH[of "Suc i" s1] obtain k where kk: "k \<le> length ts
      \<and> trace (snd (process_torrents M len (Suc i) ts s1))
         = trace s1 @ concat (map (dispatch_events M) (take k ts))
      \<and> (\<forall>j<k. fst (process_torrents M len (Suc i) (take j ts) s1) = None)"
      by (rule exE)
    have a: "trace (snd (process_torrents M len i (t # ts) s))
         = trace s @ concat (map (dispatch_events M) (take (Suc k) (t # ts)))"
      using p[of ts] kk tr1 by simp
    have b: "\<forall>j<Suc k. fst (process_torrents M len i (take j (t # ts)) s) = None"
    proof (intro allI impI)
      fix j assume j: "j < Suc k"
      show "fst (process_torrents M len i (take j (t # ts)) s) = None"
      proof (cases j)
        case 0
        then show ?thesis by simp
      next
        case (Suc j')
        with j have "j' < k" by simp
        with kk have "fst (process_torrents M len (Suc i) (take j' ts) s1) = None" by blast
        with Suc p[of "take j' ts"] show ?thesis by simp
      qed
    qed
    from kk have "Suc k \<le> length (t # ts)" by simp
    with a b have "Suc k \<le> length (t # ts)
        \<and> trace (snd (process_torrents M len i (t # ts) s))
            = trace s @ concat (map (dispatch_events M) (take (Suc k) (t # ts)))
        \<and> (\<forall>j<Suc k. fst (process_torrents M len i (take j (t # ts)) s) = None)"
      by (intro conjI)
    then show ?thesis by (rule exI[of _ "Suc k"])
  qed
qed

lemma poll_tick_reach:
  "\<exists>k\<le>length (selection M mp rep s).
      trace (snd (poll_tick M mp rep s))
        = trace s @ concat (map (dispatch_events M) (take k (selection M mp rep s)))
    \<and> (\<forall>j<k. fst (process_torrents M (length (selection M mp rep s)) 1
                      (take j (selection M mp rep s)) s) = None)"
proof (cases "selection M mp rep s = []")
  case True
  then have "trace (snd (poll_tick M mp rep s)) = trace s"
    by (cases rep) (simp_all add: selection_def poll_tick_def)
  then have "0 \<le> length (selection M mp rep s)
    \<and> trace (snd (poll_tick M mp rep s))
        = trace s @ concat (map (dispatch_events M) (take 0 (selection M mp rep s)))
    \<and> (\<forall>j<0. fst (process_torrents M (length (selection M mp rep s)) 1
                      (take j (selection M mp rep s)) s) = None)"
    by simp
  then show ?thesis by (rule exI[of _ 0])
next
  case False
  then obtain ts where rep: "rep = Some ts"
    and sel: "selection M mp rep s = torrents_to_process M mp (processed_torrents s) ts"
    by (cases rep) (auto simp: selection_def)
  from False sel have ne: "torrents_to_process M mp (processed_torrents s) ts \<noteq> []" by simp
  from poll_tick_nonempty[OF rep ne] sel
  have "trace (snd (poll_tick M mp rep s))
          = trace (snd (process_torrents M (length (selection M mp rep s)) 1
                          (selection M mp rep s) s))"
    by simp
  with process_torrents_reach[of "selection M mp rep s" M "length (selection M mp rep s)" 1 s]
  show ?thesis by simp
qed

lemma dispatch_count_pos:
  assumes "fst (process_torrents M len 1 before s) = None"
  shows "0 < unpack_count (hash t) (trace (snd (process_torrents M len 1 (before @ t # after) s)))"
proof -
  obtain sb where b: "process_torrents M len 1 before s = (None, sb)"
    using assms by (cases "process_torrents M len 1 before s") auto
  then have p: "process_torrents M len 1 (before @ t # after) s
                  = process_torrents M len (1 + length before) (t # after) sb"
    by (simp add: process_torrents_append)
  from process_torrents_effect[of "t # after" M len "1 + length before" sb] obtain k where kk:
      "k \<le> length (t # after)
       \<and> trace (snd (process_torrents M len (1 + length before) (t # after) sb))
           = trace sb @ concat (map (dispatch_events M) (take k (t # after)))
       \<and> processed_torrents (snd (process_torrents M len (1 + length before) (t # after) sb))
           = processed_torrents sb \<union> hash ` set (take k (t # after))
       \<and> (fst (process_torrents M len (1 + length before) (t # after) sb) = None
            \<longrightarrow> k = length (t # after))
       \<and> (\<forall>e. fst (process_torrents M len (1 + length before) (t # after) sb) = Some e \<longrightarrow>
            0 < k \<and> (\<exists>w. fst (unpack M (content_path ((t # after) ! (k - 1))) w) = Some e))"
    by (rule exE)
  have "0 < k"
  proof (cases "fst (process_torrents M len (1 + length before) (t # after) sb)")
    case None
    with kk show ?thesis by simp
  next
    case (Some e)
    with kk show ?thesis by blast
  qed
  then obtain k' where k': "k = Suc k'" by (cases k) auto
  from kk have "trace (snd (process_torrents M len (1 + length before) (t # after) sb))
           = trace sb @ concat (map (dispatch_events M) (take k (t # after)))" by blast
  with k' have "trace (snd (process_torrents M len (1 + length before) (t # after) sb))
           = trace sb @ dispatch_events M t @ concat (map (dispatch_events M) (take k' after))"
    by simp
  with p show ?thesis by simp
qed

lemma tick_step:
  assumes "\<not> stop_set i"
  shows "\<exists>s2 n. trace s2 = trace (snd (poll_tick M mp (reply i) (s\<lparr>trace := trace s @ [Polled]\<rparr>)))
                        @ [Waited n]
           \<and> (\<forall>rest. monitor_loop M mp (i # rest) s = monitor_loop M mp rest s2)"
proof -
  let ?s0 = "s\<lparr>trace := trace s @ [Polled]\<rparr>"
  obtain r s1 where pt: "poll_tick M mp (reply i) ?s0 = (r, s1)"
    by (cases "poll_tick M mp (reply i) ?s0") auto
  show ?thesis
  proof (cases r)
    case None
    let ?s2 = "s1\<lparr>trace := trace s1 @ [Waited 15]\<rparr>"
    have "trace ?s2 = trace (snd (poll_tick M mp (reply i) ?s0)) @ [Waited 15]"
      using pt by simp
    moreover have "\<forall>rest. monitor_loop M mp (i # rest) s = monitor_loop M mp rest ?s2"
      using None pt assms by simp
    ultimately show ?thesis by blast
  next
    case (Some e)
    let ?s2 = "s1\<lparr>the_world := gui_put (Status ''Error during polling. Retrying...'')
                                      (the_world s1),
                      trace := trace s1 @ [Waited 60]\<rparr>"
    have "trace ?s2 = trace (snd (poll_tick M mp (reply i) ?s0)) @ [Waited 60]"
      using pt by simp
    moreover have "\<forall>rest. monitor_loop M mp (i # rest) s = monitor_loop M mp rest ?s2"
      using Some pt assms by simp
    ultimately show ?thesis by blast
  qed
qed

lemma count_grows: "unpack_count h (trace s) \<le> unpack_count h (trace (monitor_loop M mp inputs s))"
  using monitor_loop_trace[of M mp inputs s] by auto


lemma reached_count:
  assumes "reached M mp inputs s h"
  shows "0 < unpack_count h (trace (monitor_loop M mp inputs s))"
proof -
  from assms obtain pre i rest ts before t after where x:
    "inputs = pre @ i # rest" "\<forall>j\<in>set pre. \<not> stop_set j" "\<not> stop_set i"
    "reply i = Some ts"
    "torrents_to_process M mp (processed_torrents (monitor_loop M mp pre s)) ts
           = before @ t # after"
    "hash t = h"
    "fst (process_torrents M (length (before @ t # after)) 1 before
                 ((monitor_loop M mp pre s)
                    \<lparr>trace := trace (monitor_loop M mp pre s) @ [Polled]\<rparr>)) = None"
    by (rule reachedE)
  let ?sp = "monitor_loop M mp pre s"
  let ?s0 = "?sp\<lparr>trace := trace ?sp @ [Polled]\<rparr>"
  let ?todo = "torrents_to_process M mp (processed_torrents ?s0) ts"
  have todo: "?todo = before @ t # after" using x(5) by simp
  then have ne: "?todo \<noteq> []" by simp
  have "trace (snd (poll_tick M mp (reply i) ?s0))
          = trace (snd (process_torrents M (length ?todo) 1 ?todo ?s0))"
    using poll_tick_nonempty[OF x(4) ne] by simp
  with dispatch_count_pos[OF x(7), of t after] todo x(6)
  have pos: "0 < unpack_count h (trace (snd (poll_tick M mp (reply i) ?s0)))" by simp
  from tick_step[OF x(3), of M mp ?sp] obtain s2 n where s2:
    "trace s2 = trace (snd (poll_tick M mp (reply i) ?s0)) @ [Waited n]"
    "\<forall>rest. monitor_loop M mp (i # rest) ?sp = monitor_loop M mp rest s2"
    by blast
  have "monitor_loop M mp inputs s = monitor_loop M mp rest s2"
    using monitor_loop_append[OF x(2), of M mp "i # rest" s] x(1) s2(2) by simp
  moreover have "unpack_count h (trace s2) \<le> unpack_count h (trace (monitor_loop M mp rest s2))"
    by (rule count_grows)
  ultimately show ?thesis using pos s2(1) by simp
qed

lemma count_reached:
  "unpack_count h (trace s) < unpack_count h (trace (monitor_loop M mp inputs s)) \<Longrightarrow>
     reached M mp inputs s h"
proof (induction inputs arbitrary: s)
  case Nil
  then show ?case by simp
next
  case (Cons i rest)
  show ?case
  proof (cases "stop_set i")
    case True
    with Cons.prems show ?thesis by (simp add: unpack_count_def)
  next
    case ns: False
    let ?s0 = "s\<lparr>trace := trace s @ [Polled]\<rparr>"
    let ?s1 = "snd (poll_tick M mp (reply i) ?s0)"
    let ?sel = "selection M mp (reply i) ?s0"
    from tick_step[OF ns, of M mp s] obtain s2 n where s2:
      "trace s2 = trace ?s1 @ [Waited n]"
      "\<forall>rest. monitor_loop M mp (i # rest) s = monitor_loop M mp rest s2"
      by blast
    from poll_tick_reach[of M mp "reply i" ?s0] obtain k where kk:
      "k \<le> length ?sel
       \<and> trace ?s1 = trace ?s0 @ concat (map (dispatch_events M) (take k ?sel))
       \<and> (\<forall>j<k. fst (process_torrents M (length ?sel) 1 (take j ?sel) ?s0) = None)"
      by (rule exE)
    then have tr: "trace ?s1 = trace s @ [Polled] @ concat (map (dispatch_events M) (take k ?sel))"
      by simp
    show ?thesis
    proof (cases "0 < length (filter (\<lambda>t. hash t = h) (take k ?sel))")
      case True
      then have "h \<in> hash ` set (take k ?sel)" by (rule count_pos_in)
      then obtain t where t: "t \<in> set (take k ?sel)" "hash t = h" by auto
      then obtain j where j: "j < length (take k ?sel)" "take k ?sel ! j = t"
        by (auto simp: in_set_conv_nth)
      then have jk: "j < k" and jl: "j < length ?sel" by simp_all
      with j(2) have tj: "?sel ! j = t" by simp
      from jl have split: "?sel = take j ?sel @ t # drop (Suc j) ?sel"
        using tj id_take_nth_drop by blast
      from jl have "?sel \<noteq> []" by auto
      then obtain ts where rep: "reply i = Some ts"
        and sel: "?sel = torrents_to_process M mp (processed_torrents ?s0) ts"
        by (cases "reply i") (auto simp: selection_def)
      have a: "torrents_to_process M mp (processed_torrents (monitor_loop M mp [] s)) ts
                 = take j ?sel @ t # drop (Suc j) ?sel"
        using split sel by simp
      from kk jk have "fst (process_torrents M (length ?sel) 1 (take j ?sel) ?s0) = None"
        by blast
      with split have b: "fst (process_torrents M
                 (length (take j ?sel @ t # drop (Suc j) ?sel)) 1 (take j ?sel)
                 ((monitor_loop M mp [] s)
                    \<lparr>trace := trace (monitor_loop M mp [] s) @ [Polled]\<rparr>)) = None"
        by simp
      show ?thesis
        by (rule reachedI[of "i # rest" "[]" i rest ts M mp s "take j ?sel" t "drop (Suc j) ?sel"])
           (use ns rep a t(2) b in simp_all)
    next
      case False
      then have c2: "unpack_count h (concat (map (dispatch_events M) (take k ?sel))) = 0"
        by (simp add: unpack_count_blocks)
      have c1: "unpack_count h [Polled] = 0" "unpack_count h [Waited n] = 0"
        by (simp_all add: unpack_count_def)
      have "trace s2 = trace s @ [Polled] @ concat (map (dispatch_events M) (take k ?sel))
                         @ [Waited n]"
        using s2(1) tr by simp
      then have "unpack_count h (trace s2)
                   = unpack_count h (trace s) + unpack_count h [Polled]
                     + unpack_count h (concat (map (dispatch_events M) (take k ?sel)))
                     + unpack_count h [Waited n]"
        by (simp only: unpack_count_append add.assoc)
      with c1 c2 have "unpack_count h (trace s2) = unpack_count h (trace s)" by simp
      with Cons.prems s2(2) have "unpack_count h (trace s2)
                                    < unpack_count h (trace (monitor_loop M mp rest s2))"
        by simp
      from Cons.IH[OF this] obtain pre i' rest' ts before t after where x:
        "rest = pre @ i' # rest'" "\<forall>j\<in>set pre. \<not> stop_set j" "\<not> stop_set i'"
        "reply i' = Some ts"
        "torrents_to_process M mp (processed_torrents (monitor_loop M mp pre s2)) ts
           = before @ t # after"
        "hash t = h"
        "fst (process_torrents M (length (before @ t # after)) 1 before
                 ((monitor_loop M mp pre s2)
                    \<lparr>trace := trace (monitor_loop M mp pre s2) @ [Polled]\<rparr>)) = None"
        by (rule reachedE)
      from s2(2) have m: "monitor_loop M mp (i # pre) s = monitor_loop M mp pre s2" by blast
      show ?thesis
        by (rule reachedI[of "i # rest" "i # pre" i' rest' ts M mp s before t after])
           (use ns x m in simp_all)
    qed
  qed
qed

text \<open>
  C1, as amended. In every run of the poller in which no reply of the service lists a
  hash twice: each call of \<open>unpack_archives\<close> comes after the hash of its torrent was
  put into \<open>processed_torrents\<close>, and \<open>unpack_archives\<close> is called at most once for
  any hash over the whole run, also when the call raises. It is called exactly once
  for a hash if and only if the hash is reached: the thread got connected, and on some
  tick before it was stopped the torrent is selected and the extraction of every
  torrent selected before it on that tick returns. Otherwise it is not called at all.
\<close>

theorem at_most_once_processing:
  assumes "trace s = []"
    and "\<forall>i\<in>set inputs. \<forall>ts. reply i = Some ts \<longrightarrow> distinct (map hash ts)"
  shows "marks_ok {} (trace (snd (run M conn mp inputs s)))
       \<and> unpack_count h (trace (snd (run M conn mp inputs s))) \<le> 1
       \<and> (unpack_count h (trace (snd (run M conn mp inputs s))) = 1
            \<longleftrightarrow> conn = Connected
                \<and> reached M mp inputs
                    (s\<lparr>the_world := gui_put (Status ''Monitoring...'') (the_world s)\<rparr>) h)"
proof -
  let ?s0 = "s\<lparr>the_world := gui_put (Status ''Monitoring...'') (the_world s)\<rparr>"
  have i0: "dispatch_inv ?s0" using assms(1) by (simp add: dispatch_inv_def)
  have c0: "unpack_count h (trace ?s0) = 0" using assms(1) by simp
  have inv: "dispatch_inv (snd (run M conn mp inputs s))"
  proof (cases conn)
    case Connected
    with monitor_loop_inv[OF i0 assms(2), of M mp] show ?thesis by (simp add: run_def)
  next
    case ClientFailed
    with assms(1) show ?thesis by (simp add: run_def dispatch_inv_def)
  next
    case LoginFailed
    with assms(1) show ?thesis by (simp add: run_def dispatch_inv_def)
  qed
  then have a: "marks_ok {} (trace (snd (run M conn mp inputs s)))"
    and b: "unpack_count h (trace (snd (run M conn mp inputs s))) \<le> 1"
    by (simp_all add: dispatch_inv_def)
  have c: "unpack_count h (trace (snd (run M conn mp inputs s))) = 1
            \<longleftrightarrow> conn = Connected \<and> reached M mp inputs ?s0 h"
  proof
    assume one: "unpack_count h (trace (snd (run M conn mp inputs s))) = 1"
    have conn: "conn = Connected"
    proof (rule ccontr)
      assume "conn \<noteq> Connected"
      then have "trace (snd (run M conn mp inputs s)) = []"
        using assms(1) by (cases conn) (simp_all add: run_def)
      with one show False by simp
    qed
    with one c0 have "unpack_count h (trace ?s0) < unpack_count h (trace (monitor_loop M mp inputs ?s0))"
      by (simp add: run_def)
    then have "reached M mp inputs ?s0 h" by (rule count_reached)
    with conn show "conn = Connected \<and> reached M mp inputs ?s0 h" by simp
  next
    assume r: "conn = Connected \<and> reached M mp inputs ?s0 h"
    then have "0 < unpack_count h (trace (monitor_loop M mp inputs ?s0))"
      using reached_count by blast
    with r have "0 < unpack_count h (trace (snd (run M conn mp inputs s)))"
      by (simp add: run_def)
    with b show "unpack_count h (trace (snd (run M conn mp inputs s))) = 1" by simp
  qed
  from a b c show ?thesis by (intro conjI)
qed


text \<open>
  Two ticks that both list \<open>A\<close> and \<open>B\<close>, the unpacking of \<open>A\<close> raising: the first
  tick is abandoned after \<open>A\<close>, the second reaches \<open>B\<close>, which is unpacked once.
\<close>

theorem at_most_once_processing_witness:
  "trace fresh_state = []
   \<and> unpack_count ''B''
        (trace (snd (run (example_monitor [[''downloads'', ''A'']]) Connected [''downloads'']
           [example_tick [example_torrent ''A'' [''downloads'', ''A''],
                          example_torrent ''B'' [''downloads'', ''B'']],
            example_tick [example_torrent ''A'' [''downloads'', ''A''],
                          example_torrent ''B'' [''downloads'', ''B'']],
            stop_tick] fresh_state))) = 1"
proof -
  let ?M = "example_monitor [[''downloads'', ''A'']]"
  let ?tA = "example_torrent ''A'' [''downloads'', ''A'']"
  let ?tB = "example_torrent ''B'' [''downloads'', ''B'']"
  let ?i = "example_tick [?tA, ?tB]"
  let ?inputs = "[?i, ?i, stop_tick]"
  let ?s0 = "fresh_state\<lparr>the_world := gui_put (Status ''Monitoring...'') (the_world fresh_state)\<rparr>"
  have h1: "trace fresh_state = []" by (simp add: fresh_state_def)
  have h2: "\<forall>i\<in>set ?inputs. \<forall>ts. reply i = Some ts \<longrightarrow> distinct (map hash ts)"
    by (auto simp: example_tick_def stop_tick_def example_torrent_def)
  have r1: "?inputs = [?i] @ ?i # [stop_tick]" by simp
  have r2: "\<forall>j\<in>set [?i]. \<not> stop_set j" by (simp add: example_tick_def)
  have r3: "\<not> stop_set ?i" by (simp add: example_tick_def)
  have r4: "reply ?i = Some [?tA, ?tB]" by (simp add: example_tick_def)
  have r5: "torrents_to_process ?M [''downloads'']
              (processed_torrents (monitor_loop ?M [''downloads''] [?i] ?s0)) [?tA, ?tB]
              = [] @ ?tB # []"
    by code_simp
  have r6: "hash ?tB = ''B''" by (simp add: example_torrent_def)
  have r7: "fst (process_torrents ?M (length ([] @ ?tB # [])) 1 []
                 ((monitor_loop ?M [''downloads''] [?i] ?s0)
                    \<lparr>trace := trace (monitor_loop ?M [''downloads''] [?i] ?s0) @ [Polled]\<rparr>)) = None"
    by simp
  have "reached ?M [''downloads''] ?inputs ?s0 ''B''"
    by (rule reachedI[OF r1 r2 r3 r4 r5 r6 r7])
  with at_most_once_processing[OF h1 h2, of ?M Connected "[''downloads'']" "''B''"]
  have "unpack_count ''B'' (trace (snd (run ?M Connected [''downloads''] ?inputs fresh_state))) = 1"
    by blast
  with h1 show ?thesis by blast
qed

text \<open>
  C1 as stated promises exactly one call in any run. Here \<open>B\<close> is complete, new and
  below the root, and is listed on the only tick of the run; the unpacking of \<open>A\<close>
  before it raises, the tick is abandoned, and the thread is stopped during the wait:
  \<open>B\<close> was never unpacked. And a reply that lists \<open>A\<close> twice has it unpacked twice on
  that tick, both entries being selected before either is marked.
\<close>

theorem exactly_once_counterexample:
  "selected (example_monitor [[''downloads'', ''A'']]) [''downloads'']
      (processed_torrents fresh_state) (example_torrent ''B'' [''downloads'', ''B''])
   \<and> trace (snd (run (example_monitor [[''downloads'', ''A'']]) Connected [''downloads'']
        [example_tick [example_torrent ''A'' [''downloads'', ''A''],
                       example_torrent ''B'' [''downloads'', ''B'']],
         stop_tick] fresh_state))
      = [Polled, MarkedProcessed ''A'', PauseRequested ''A'',
         UnpackCalled ''A'' [''downloads'', ''A''], Waited 60, Stopped]
   \<and> unpack_count ''B''
        (trace (snd (run (example_monitor [[''downloads'', ''A'']]) Connected [''downloads'']
           [example_tick [example_torrent ''A'' [''downloads'', ''A''],
                          example_torrent ''B'' [''downloads'', ''B'']],
            stop_tick] fresh_state))) = 0
   \<and> unpack_count ''A''
        (trace (snd (run (example_monitor []) Connected [''downloads'']
           [example_tick [example_torrent ''A'' [''downloads'', ''A''],
                          example_torrent ''A'' [''downloads'', ''A'']],
            stop_tick] fresh_state))) = 2"
  by code_simp

section \<open>The extraction history\<close>

lemma split_on_nonempty: "split_on sep s \<noteq> []"
  by (induction s) (auto split: list.splits)

lemma split_on_line: "sep \<notin> set l \<Longrightarrow> split_on sep (l @ sep # rest) = l # split_on sep rest"
  by (induction l) (auto split: list.splits)

lemma split_on_two: "2 \<le> length (split_on sep (u @ [sep]))"
proof (induction u)
  case Nil
  show ?case by simp
next
  case (Cons y ys)
  then show ?case using split_on_nonempty[of sep "ys @ [sep]"]
    by (auto split: list.splits)
qed

lemma split_on_terminated:
  "a = [] \<or> last a = sep \<Longrightarrow> split_on sep (a @ b) = butlast (split_on sep a) @ split_on sep b"
proof (induction a)
  case Nil
  show ?case by simp
next
  case (Cons c cs)
  show ?case
  proof (cases "cs = []")
    case True
    with Cons.prems have "c = sep" by simp
    with True show ?thesis by simp
  next
    case False
    with Cons.prems have l: "last cs = sep" by simp
    then have ih: "split_on sep (cs @ b) = butlast (split_on sep cs) @ split_on sep b"
      using Cons.IH by simp
    from False l have "cs = butlast cs @ [sep]" by (metis append_butlast_last_id)
    then obtain u where u: "cs = u @ [sep]" by blast
    have two: "\<exists>x xs. butlast (split_on sep cs) = x # xs"
    proof -
      have "2 \<le> length (split_on sep cs)"
        using split_on_two[where u=u and sep=sep] u by simp
      then have "1 \<le> length (butlast (split_on sep cs))" by simp
      then have "butlast (split_on sep cs) \<noteq> []"
        by (metis list.size(3) not_one_le_zero)
      then show ?thesis by (cases "butlast (split_on sep cs)") auto
    qed
    show ?thesis
    proof (cases "c = sep")
      case True
      with ih split_on_nonempty[of sep cs] show ?thesis by simp
    next
      case nc: False
      from two obtain x xs where x: "butlast (split_on sep cs) = x # xs" by blast
      then obtain z where z: "split_on sep cs = (x # xs) @ [z]"
        by (metis append_butlast_last_id split_on_nonempty)
      from ih x have "split_on sep (cs @ b) = x # (xs @ split_on sep b)" by simp
      with nc z show ?thesis by simp
    qed
  qed
qed

lemma universal_newlines_plain: "CHR 0x0D \<notin> set l \<Longrightarrow> universal_newlines l = l"
  by (induction l) auto

lemma universal_newlines_append:
  "a = [] \<or> last a \<noteq> CHR 0x0D \<Longrightarrow>
     universal_newlines (a @ b) = universal_newlines a @ universal_newlines b"
proof (induction a rule: universal_newlines.induct)
  case 1
  show ?case by simp
next
  case (2 c cs)
  show ?case
  proof (cases "c = CHR 0x0D")
    case False
    with 2 show ?thesis by (cases "cs = []") auto
  next
    case True
    with "2.prems" have ne: "cs \<noteq> []" by auto
    then obtain d ds where cs: "cs = d # ds" by (cases cs) auto
    show ?thesis
    proof (cases "d = CHR 0x0A")
      case dl: True
      from "2.prems" cs dl have "ds = [] \<or> last ds \<noteq> CHR 0x0D" by (auto split: if_splits)
      with "2.IH"(1)[OF True cs dl] True cs dl show ?thesis by simp
    next
      case dn: False
      from "2.prems" cs have "cs = [] \<or> last cs \<noteq> CHR 0x0D" by auto
      with "2.IH"(2)[OF True cs dn] True cs dn show ?thesis by simp
    qed
  qed
qed

lemma universal_newlines_last:
  "a \<noteq> [] \<Longrightarrow> last a = CHR 0x0A \<Longrightarrow>
     universal_newlines a \<noteq> [] \<and> last (universal_newlines a) = CHR 0x0A"
proof (induction a rule: universal_newlines.induct)
  case 1
  then show ?case by simp
next
  case (2 c cs)
  show ?case
  proof (cases "c = CHR 0x0D")
    case False
    with 2 show ?thesis by (cases "cs = []") auto
  next
    case True
    with "2.prems" have ne: "cs \<noteq> []" by auto
    then obtain d ds where cs: "cs = d # ds" by (cases cs) auto
    show ?thesis
    proof (cases "d = CHR 0x0A")
      case dl: True
      show ?thesis
      proof (cases "ds = []")
        case True
        with \<open>c = CHR 0x0D\<close> cs dl show ?thesis by simp
      next
        case False
        with "2.prems" cs have "last ds = CHR 0x0A" by simp
        with "2.IH"(1)[OF True cs dl False] True cs dl show ?thesis by simp
      qed
    next
      case dn: False
      from "2.prems" cs have "last cs = CHR 0x0A" by simp
      with "2.IH"(2)[OF True cs dn ne] True cs dn show ?thesis by simp
    qed
  qed
qed


lemma split_on_last_empty: "a = [] \<or> last a = sep \<Longrightarrow> last (split_on sep a) = []"
proof (induction a)
  case Nil
  show ?case by simp
next
  case (Cons c cs)
  show ?case
  proof (cases "cs = []")
    case True
    with Cons.prems show ?thesis by simp
  next
    case False
    with Cons.prems have l: "last cs = sep" by simp
    with False Cons.IH have e: "last (split_on sep cs) = []" by simp
    from False l have "cs = butlast cs @ [sep]" by (metis append_butlast_last_id)
    then have "2 \<le> length (split_on sep cs)"
      using split_on_two[where u="butlast cs" and sep=sep] by metis
    then obtain x y zs where "split_on sep cs = x # y # zs"
      by (cases "split_on sep cs"; cases "tl (split_on sep cs)") auto
    with e show ?thesis by auto
  qed
qed

lemma load_lines_append: "load_lines (xs @ ys) = load_lines xs @ load_lines ys"
  by (simp add: load_lines_def List.map_filter_def)

lemma parse_blank: "parse_line [] = None"
  by (simp add: parse_line_def strip_def)

lemma load_terminated:
  assumes "old = [] \<or> last old = CHR 0x0A"
  shows "load_lines (file_lines (old @ new))
           = load_lines (file_lines old) @ load_lines (file_lines new)"
proof -
  let ?u = "universal_newlines old"
  from assms have nocr: "old = [] \<or> last old \<noteq> CHR 0x0D" by auto
  have ut: "?u = [] \<or> last ?u = CHR 0x0A"
    using assms universal_newlines_last[of old] by (cases "old = []") auto
  have "file_lines (old @ new)
          = butlast (split_on (CHR 0x0A) ?u) @ split_on (CHR 0x0A) (universal_newlines new)"
    using universal_newlines_append[OF nocr, of new] split_on_terminated[OF ut]
    by (simp add: file_lines_def)
  moreover have "split_on (CHR 0x0A) ?u = butlast (split_on (CHR 0x0A) ?u) @ [[]]"
    using split_on_last_empty[OF ut] split_on_nonempty[of "CHR 0x0A" ?u]
    by (metis append_butlast_last_id)
  then have "load_lines (file_lines old) = load_lines (butlast (split_on (CHR 0x0A) ?u))"
    unfolding file_lines_def
    by (metis (no_types, lifting) List.map_filter_simps(1,2) append_Nil2 load_lines_append
          load_lines_def option.simps(4) parse_blank)
  ultimately show ?thesis by (simp add: load_lines_append file_lines_def)
qed

lemma until_sep:
  "c \<notin> set a \<Longrightarrow> takeWhile (\<lambda>x. x \<noteq> c) (a @ c # r) = a"
  "c \<notin> set a \<Longrightarrow> dropWhile (\<lambda>x. x \<noteq> c) (a @ c # r) = c # r"
  by (induction a) auto

lemma strip_id:
  assumes "s \<noteq> []" and "\<not> is_space (hd s)" and "\<not> is_space (last s)"
  shows "strip s = s"
proof -
  from assms(1,2) have "dropWhile is_space s = s" by (cases s) auto
  moreover from assms(1,3) have "dropWhile is_space (rev s) = rev s"
    by (cases "rev s") (auto simp: last_rev[symmetric] simp del: last_rev)
  ultimately show ?thesis by (simp add: strip_def)
qed

lemma parse_record:
  assumes "storable (st, nm, pth)"
  shows "parse_line (st @ '':'' @ nm @ '':'' @ pth) = Some (st, nm, pth)"
proof -
  let ?line = "st @ CHR '':'' # nm @ CHR '':'' # pth"
  from assms have st: "st = ''SUCCESS'' \<or> st = ''FAILURE''"
    and nm: "CHR '':'' \<notin> set nm"
    and pl: "pth = [] \<or> \<not> is_space (last pth)"
    by (auto simp: storable_def)
  from st have c1: "CHR '':'' \<notin> set st" by auto
  from st have h: "\<not> is_space (hd ?line)" by (auto simp: is_space_def)
  have l: "\<not> is_space (last ?line)" using pl by (auto simp: is_space_def)
  have s: "strip ?line = ?line" using strip_id[OF _ h l] by simp
  have "split_max (CHR '':'') (Suc (Suc 0)) ?line = [st, nm, pth]"
    using until_sep[OF c1, of "nm @ CHR '':'' # pth"] until_sep[OF nm, of pth] by simp
  then have "split_max (CHR '':'') 2 ?line = [st, nm, pth]"
    by (simp add: numeral_2_eq_2)
  with s show ?thesis by (simp add: parse_line_def)
qed

lemma file_lines_record:
  assumes "storable (st, nm, pth)"
  shows "file_lines (record_line st nm pth @ rest) = (st @ '':'' @ nm @ '':'' @ pth) # file_lines rest"
proof -
  let ?l = "st @ '':'' @ nm @ '':'' @ pth"
  from assms have "st = ''SUCCESS'' \<or> st = ''FAILURE''" "plain_field nm" "plain_field pth"
    by (auto simp: storable_def)
  then have cr: "CHR 0x0D \<notin> set ?l" and lf: "CHR 0x0A \<notin> set ?l"
    by (auto simp: plain_field_def)
  have r: "record_line st nm pth @ rest = ?l @ CHR 0x0A # rest"
    by (simp add: record_line_def)
  have "?l = [] \<or> last ?l \<noteq> CHR 0x0D" using cr by (metis last_in_set)
  from universal_newlines_append[OF this, of "CHR 0x0A # rest"] universal_newlines_plain[OF cr]
  have "universal_newlines (?l @ CHR 0x0A # rest) = ?l @ CHR 0x0A # universal_newlines rest"
    by simp
  with split_on_line[OF lf] show ?thesis unfolding r file_lines_def by simp
qed

lemma load_written:
  "\<forall>r\<in>set rs. storable r \<Longrightarrow>
     load_lines (file_lines (concat (map (\<lambda>(st, nm, pth). record_line st nm pth) rs))) = rs"
proof (induction rs)
  case Nil
  show ?case by (simp add: file_lines_def load_lines_def List.map_filter_def parse_blank)
next
  case (Cons r rs)
  obtain st nm pth where r: "r = (st, nm, pth)" by (cases r) auto
  from Cons.prems r have s: "storable (st, nm, pth)" by simp
  from Cons.prems Cons.IH have ih:
    "load_lines (file_lines (concat (map (\<lambda>(st, nm, pth). record_line st nm pth) rs))) = rs"
    by simp
  show ?case using file_lines_record[OF s] parse_record[OF s] ih r
    by (simp add: load_lines_def List.map_filter_def)
qed

lemma append_records_text:
  "file_text (history (append_records rs w))
     = file_text (history w) @ concat (map (\<lambda>(st, nm, pth). record_line st nm pth) rs)"
proof (induction rs arbitrary: w)
  case Nil
  show ?case by (simp add: append_records_def)
next
  case (Cons r rs)
  obtain st nm pth where r: "r = (st, nm, pth)" by (cases r) auto
  have "append_records (r # rs) w = append_records rs (log_extraction_event st nm pth w)"
    by (simp add: append_records_def r)
  with Cons.IH[of "log_extraction_event st nm pth w"] r show ?case
    by (simp add: log_event_fields file_text_def)
qed

lemma load_via_text: "load_extraction_history h = load_lines (file_lines (file_text h))"
  by (cases h)
     (simp_all add: load_extraction_history_def file_text_def file_lines_def load_lines_def
        List.map_filter_def parse_blank)

lemma colons_dropWhile:
  "length (filter (\<lambda>c. c = x) (dropWhile P s)) \<le> length (filter (\<lambda>c. c = x) s)"
proof -
  have "length (filter (\<lambda>c. c = x) s)
          = length (filter (\<lambda>c. c = x) (takeWhile P s)) + length (filter (\<lambda>c. c = x) (dropWhile P s))"
    by (metis filter_append length_append takeWhile_dropWhile_id)
  then show ?thesis by simp
qed

lemma colons_strip:
  "length (filter (\<lambda>c. c = x) (strip s)) \<le> length (filter (\<lambda>c. c = x) s)"
proof -
  have "length (filter (\<lambda>c. c = x) (strip s))
          = length (filter (\<lambda>c. c = x) (dropWhile is_space (rev (dropWhile is_space s))))"
    by (simp add: strip_def rev_filter[symmetric])
  also have "\<dots> \<le> length (filter (\<lambda>c. c = x) (rev (dropWhile is_space s)))"
    by (rule colons_dropWhile)
  also have "\<dots> = length (filter (\<lambda>c. c = x) (dropWhile is_space s))"
    by (simp add: rev_filter[symmetric])
  also have "\<dots> \<le> length (filter (\<lambda>c. c = x) s)" by (rule colons_dropWhile)
  finally show ?thesis .
qed

lemma split_three_colons:
  assumes "length (split_max sep 2 s) = 3"
  shows "2 \<le> length (filter (\<lambda>c. c = sep) s)"
proof -
  let ?r = "tl (dropWhile (\<lambda>c. c \<noteq> sep) s)"
  from assms have a: "sep \<in> set s" by (auto simp: numeral_2_eq_2 split: if_splits)
  with assms have b: "sep \<in> set ?r" by (auto simp: numeral_2_eq_2 split: if_splits)
  from a have d: "dropWhile (\<lambda>c. c \<noteq> sep) s = sep # ?r"
    by (metis (mono_tags, lifting) dropWhile_eq_Nil_conv hd_dropWhile list.collapse)
  have "length (filter (\<lambda>c. c = sep) s)
          = length (filter (\<lambda>c. c = sep) (takeWhile (\<lambda>c. c \<noteq> sep) s))
            + length (filter (\<lambda>c. c = sep) (sep # ?r))"
    by (metis d filter_append length_append takeWhile_dropWhile_id)
  moreover have "length (filter (\<lambda>c. c = sep) (sep # ?r))
                   = 1 + length (filter (\<lambda>c. c = sep) ?r)"
    by simp
  moreover from b have "filter (\<lambda>c. c = sep) ?r \<noteq> []"
    by (simp add: filter_empty_conv)
  then have "1 \<le> length (filter (\<lambda>c. c = sep) ?r)"
    by (metis One_nat_def Suc_leI length_greater_0_conv)
  ultimately show ?thesis by linarith
qed

lemma parse_short:
  assumes "length (filter (\<lambda>c. c = CHR '':'') l) < 2"
  shows "parse_line l = None"
proof -
  from assms colons_strip[of "CHR '':''" l]
  have "length (filter (\<lambda>c. c = CHR '':'') (strip l)) < 2" by simp
  with split_three_colons[of "CHR '':''" "strip l"]
  have n3: "length (split_max (CHR '':'') 2 (strip l)) \<noteq> 3" by auto
  show ?thesis
  proof (cases "split_max (CHR '':'') 2 (strip l)")
    case Nil
    then show ?thesis by (simp add: parse_line_def Let_def)
  next
    case (Cons a as)
    with n3 show ?thesis
      by (cases as; cases "tl as"; cases "tl (tl as)") (auto simp: parse_line_def Let_def)
  qed
qed

text \<open>
  C7, as amended. Appending records whose name has no colon, whose fields have no
  line break and whose path does not end in white space to a history that is missing,
  empty or ends in a line feed, and then loading it, yields what was loaded before
  followed by those records, in order; the path may contain colons, since a line is
  split at its first two colons only. A line with fewer than two colons is skipped, and
  the lines before and after it load as they would without it.
\<close>

theorem history_round_trip:
  assumes "\<forall>r\<in>set rs. storable r"
    and "file_text (history w) = [] \<or> last (file_text (history w)) = CHR 0x0A"
  shows "load_extraction_history (history (append_records rs w))
           = load_extraction_history (history w) @ rs
       \<and> (\<forall>pre l post. length (filter (\<lambda>c. c = CHR '':'') l) < 2 \<longrightarrow>
             load_lines (pre @ l # post) = load_lines pre @ load_lines post)"
proof -
  have "load_extraction_history (history (append_records rs w))
          = load_lines (file_lines (file_text (history w)
              @ concat (map (\<lambda>(st, nm, pth). record_line st nm pth) rs)))"
    by (simp add: load_via_text append_records_text)
  also have "\<dots> = load_lines (file_lines (file_text (history w)))
              @ load_lines (file_lines (concat (map (\<lambda>(st, nm, pth). record_line st nm pth) rs)))"
    by (rule load_terminated[OF assms(2)])
  also have "\<dots> = load_extraction_history (history w) @ rs"
    by (simp add: load_via_text load_written[OF assms(1)])
  finally have a: "load_extraction_history (history (append_records rs w))
           = load_extraction_history (history w) @ rs" .
  have b: "load_lines (pre @ l # post) = load_lines pre @ load_lines post"
    if "length (filter (\<lambda>c. c = CHR '':'') l) < 2" for pre l post
    using parse_short[OF that] by (simp add: load_lines_def List.map_filter_def)
  from a b show ?thesis by blast
qed

text \<open>
  Two records written to a fresh history, both paths with a colon, then a history with
  a broken line in it.
\<close>

theorem history_round_trip_witness:
  "storable (''SUCCESS'', ''T'', ''/d/a:b'') \<and> storable (''FAILURE'', ''T (1)'', ''C:/x y'')
   \<and> load_extraction_history (history (append_records
          [(''SUCCESS'', ''T'', ''/d/a:b''), (''FAILURE'', ''T (1)'', ''C:/x y'')]
          (example_world [])))
       = [(''SUCCESS'', ''T'', ''/d/a:b''), (''FAILURE'', ''T (1)'', ''C:/x y'')]
   \<and> load_lines ([''SUCCESS:T:/d''] @ ''broken:line'' # [''FAILURE:U:/e''])
       = load_lines [''SUCCESS:T:/d''] @ load_lines [''FAILURE:U:/e'']"
proof -
  let ?rs = "[(''SUCCESS'', ''T'', ''/d/a:b''), (''FAILURE'', ''T (1)'', ''C:/x y'')]"
  have s1: "storable (''SUCCESS'', ''T'', ''/d/a:b'')"
    by (simp add: storable_def plain_field_def is_space_def)
  have s2: "storable (''FAILURE'', ''T (1)'', ''C:/x y'')"
    by (simp add: storable_def plain_field_def is_space_def)
  from s1 s2 have h1: "\<forall>r\<in>set ?rs. storable r" by simp
  have h2: "file_text (history (example_world [])) = []
            \<or> last (file_text (history (example_world []))) = CHR 0x0A"
    by (simp add: example_world_def file_text_def)
  have e: "load_extraction_history (history (example_world [])) = []"
    by (simp add: example_world_def load_extraction_history_def)
  have c: "length (filter (\<lambda>c. c = CHR '':'') ''broken:line'') < 2" by simp
  note t = history_round_trip[OF h1 h2]
  from t e have "load_extraction_history (history (append_records ?rs (example_world []))) = ?rs"
    by simp
  moreover from t c have "load_lines ([''SUCCESS:T:/d''] @ ''broken:line'' # [''FAILURE:U:/e''])
       = load_lines [''SUCCESS:T:/d''] @ load_lines [''FAILURE:U:/e'']"
    by blast
  ultimately show ?thesis using s1 s2 by blast
qed

text \<open>
  C7 as stated covers every record. A path that ends in a blank comes back without
  it, and a name with a colon comes back cut at the colon.
\<close>

theorem history_round_trip_counterexample:
  "load_extraction_history (history (append_records
       [(''SUCCESS'', ''Album '', ''/d/Album '')] (example_world [])))
     = [(''SUCCESS'', ''Album '', ''/d/Album'')]
   \<and> load_extraction_history (history (append_records
       [(''SUCCESS'', ''Album '', ''/d/Album '')] (example_world [])))
     \<noteq> [(''SUCCESS'', ''Album '', ''/d/Album '')]
   \<and> load_extraction_history (history (append_records
       [(''SUCCESS'', ''a:b'', ''/d/a:b'')] (example_world [])))
     = [(''SUCCESS'', ''a'', ''b:/d/a:b'')]"
  by code_simp

end
